theory Spec2Isabelle
  imports Complex_Main "HOL-Library.Sublist" "HOL-Library.Multiset" "HOL-Library.Log_Nat"
begin

section \<open>Strings\<close>

text \<open>
  The catalogue's search engine (\<^verbatim>\<open>src/script.js\<close>, class \<^verbatim>\<open>FashionCatalogue\<close>) works on
  JavaScript strings.  A string is modelled as a \<^typ>\<open>string\<close>, each \<^typ>\<open>char\<close> standing
  for one code unit in the range U+0000 to U+00FF; \<open>length\<close> is the \<^verbatim>\<open>.length\<close> of the
  source.  A value that may be \<^verbatim>\<open>null\<close> or \<^verbatim>\<open>undefined\<close> is an \<open>option\<close>.  A JavaScript
  number is modelled as the rational that the double denotes.
\<close>

definition code_unit :: "char \<Rightarrow> nat" where
  "code_unit c = of_char c"

text \<open>The regular expression class \<^verbatim>\<open>\w\<close>: digits, ASCII letters and the underscore.\<close>

definition is_word :: "char \<Rightarrow> bool" where
  "is_word c = (let n = code_unit c in
     (48 \<le> n \<and> n \<le> 57) \<or> (65 \<le> n \<and> n \<le> 90) \<or> n = 95 \<or> (97 \<le> n \<and> n \<le> 122))"

text \<open>The class \<^verbatim>\<open>\s\<close>, which is also what \<^verbatim>\<open>trim\<close> strips: tab, line feed, vertical tab,
  form feed, carriage return, space and the no-break space U+00A0.\<close>

definition is_space :: "char \<Rightarrow> bool" where
  "is_space c = (let n = code_unit c in (9 \<le> n \<and> n \<le> 13) \<or> n = 32 \<or> n = 160)"

text \<open>\<^verbatim>\<open>toLowerCase\<close>: A to Z, and the accented capitals U+00C0 to U+00DE (U+00D7, the
  multiplication sign, apart) move up by 32.\<close>

definition lower_char :: "char \<Rightarrow> char" where
  "lower_char c = (let n = code_unit c in
     if (65 \<le> n \<and> n \<le> 90) \<or> (192 \<le> n \<and> n \<le> 214) \<or> (216 \<le> n \<and> n \<le> 222)
     then char_of (n + 32) else c)"

definition toLowerCase :: "string \<Rightarrow> string" where
  "toLowerCase s = map lower_char s"

text \<open>\<^verbatim>\<open>.replace(/[^\w\s]/g, ' ')\<close>\<close>

definition replace_punct :: "string \<Rightarrow> string" where
  "replace_punct s = map (\<lambda>c. if \<not> is_word c \<and> \<not> is_space c then CHR '' '' else c) s"

text \<open>\<^verbatim>\<open>.replace(/[-_]/g, ' ')\<close>\<close>

definition replace_dash :: "string \<Rightarrow> string" where
  "replace_dash s = map (\<lambda>c. if c = CHR ''-'' \<or> c = CHR ''_'' then CHR '' '' else c) s"

text \<open>\<^verbatim>\<open>.replace(/\s+/g, ' ')\<close>: every maximal run of white space becomes one space.\<close>

function collapse_spaces :: "string \<Rightarrow> string" where
  "collapse_spaces [] = []"
| "collapse_spaces (c # cs) =
     (if is_space c then CHR '' '' # collapse_spaces (dropWhile is_space cs)
      else c # collapse_spaces cs)"
  by pat_completeness auto
termination
  by (relation "measure length") (auto simp: length_dropWhile_le le_imp_less_Suc)

definition trim :: "string \<Rightarrow> string" where
  "trim s = rev (dropWhile is_space (rev (dropWhile is_space s)))"

text \<open>\<^verbatim>\<open>s.includes(t)\<close>: \<open>t\<close> occurs in \<open>s\<close> as a contiguous substring.\<close>

fun includes_str :: "string \<Rightarrow> string \<Rightarrow> bool" where
  "includes_str [] t = (t = [])"
| "includes_str (c # cs) t = (prefix t (c # cs) \<or> includes_str cs t)"

text \<open>\<^verbatim>\<open>s.split(' ')\<close>: the pieces between single spaces; the empty string gives one empty piece.\<close>

fun split_space :: "string \<Rightarrow> string list" where
  "split_space [] = [[]]"
| "split_space (c # cs) =
     (if c = CHR '' '' then [] # split_space cs
      else (case split_space cs of [] \<Rightarrow> [[c]] | w # ws \<Rightarrow> (c # w) # ws))"

section \<open>Tokenizer and normalizer\<close>

text \<open>\<^verbatim>\<open>if (!text) return ''\<close>: \<^verbatim>\<open>null\<close>, \<^verbatim>\<open>undefined\<close> and the empty string are falsy.\<close>

definition normalizeText :: "string option \<Rightarrow> string" where
  "normalizeText text =
     (case text of
        None \<Rightarrow> []
      | Some s \<Rightarrow> if s = [] then []
                 else trim (collapse_spaces (replace_dash (replace_punct (toLowerCase s)))))"

definition stopWords :: "string list" where
  "stopWords = [''the'', ''a'', ''an'', ''and'', ''or'', ''but'', ''in'', ''on'', ''at'', ''to'',
     ''for'', ''of'', ''with'', ''by'', ''is'', ''are'', ''was'', ''were'', ''be'', ''been'',
     ''have'', ''has'', ''had'', ''do'', ''does'', ''did'', ''will'', ''would'', ''could'',
     ''should'']"

definition tokenize :: "string option \<Rightarrow> string list" where
  "tokenize text =
     (case text of
        None \<Rightarrow> []
      | Some s \<Rightarrow> if s = [] then []
                 else filter (\<lambda>token. token \<notin> set stopWords)
                        (filter (\<lambda>token. length token > 1) (split_space (normalizeText text))))"

section \<open>Fuzzy matcher\<close>

text \<open>
  \<^verbatim>\<open>levenshteinDistance\<close> fills a matrix, an array of rows.  An assignment \<^verbatim>\<open>a[i] = v\<close> at
  \<open>i = length a\<close> extends the array by one element; the loops of the source never write
  beyond that index.
\<close>

definition set_at :: "'a list \<Rightarrow> nat \<Rightarrow> 'a \<Rightarrow> 'a list" where
  "set_at xs i v = (if i < length xs then xs[i := v] else xs @ [v])"

text \<open>\<^verbatim>\<open>for (let i = 0; i <= str2.length; i++) matrix[i] = [i]\<close>\<close>

definition init_rows :: "string \<Rightarrow> nat list list" where
  "init_rows str2 = fold (\<lambda>i matrix. set_at matrix i [i]) [0..<Suc (length str2)] []"

text \<open>\<^verbatim>\<open>for (let j = 0; j <= str1.length; j++) matrix[0][j] = j\<close>\<close>

definition init_first_row :: "string \<Rightarrow> nat list list \<Rightarrow> nat list list" where
  "init_first_row str1 matrix0 =
     fold (\<lambda>j matrix. matrix[0 := set_at (matrix ! 0) j j]) [0..<Suc (length str1)] matrix0"

text \<open>The body of the inner loop, at row \<open>i\<close> and column \<open>j\<close>.\<close>

definition lev_cell :: "string \<Rightarrow> string \<Rightarrow> nat \<Rightarrow> nat \<Rightarrow> nat list list \<Rightarrow> nat list list" where
  "lev_cell str1 str2 i j matrix =
     (let v = (if str2 ! (i - 1) = str1 ! (j - 1) then matrix ! (i - 1) ! (j - 1)
               else min (matrix ! (i - 1) ! (j - 1) + 1)
                      (min (matrix ! i ! (j - 1) + 1) (matrix ! (i - 1) ! j + 1)))
      in matrix[i := set_at (matrix ! i) j v])"

definition lev_row :: "string \<Rightarrow> string \<Rightarrow> nat \<Rightarrow> nat list list \<Rightarrow> nat list list" where
  "lev_row str1 str2 i matrix = fold (lev_cell str1 str2 i) [1..<Suc (length str1)] matrix"

definition lev_matrix :: "string \<Rightarrow> string \<Rightarrow> nat list list" where
  "lev_matrix str1 str2 =
     fold (lev_row str1 str2) [1..<Suc (length str2)] (init_first_row str1 (init_rows str2))"

definition levenshteinDistance :: "string \<Rightarrow> string \<Rightarrow> nat" where
  "levenshteinDistance str1 str2 = lev_matrix str1 str2 ! length str2 ! length str1"

definition fuzzyMatch :: "string \<Rightarrow> string \<Rightarrow> rat \<Rightarrow> bool" where
  "fuzzyMatch term1 term2 threshold =
     (if term1 = term2 then True
      else if length term1 < 3 \<or> length term2 < 3 then False
      else if includes_str term1 term2 \<or> includes_str term2 term1 then True
      else (let distance = levenshteinDistance term1 term2;
                maxLength = max (length term1) (length term2);
                similarity = 1 - of_nat distance / of_nat maxLength
            in similarity \<ge> threshold))"

text \<open>The default \<^verbatim>\<open>threshold = 0.8\<close>.\<close>

definition default_threshold :: rat where
  "default_threshold = 8 / 10"

section \<open>Products and the search index\<close>

record original_data =
  title :: "string option"
  description :: "string option"

record product =
  original_data :: "original_data option"
  confidence_score :: "rat option"

record indexEntry =
  productIndex :: nat
  titleTokens :: "string list"
  descriptionTokens :: "string list"
  normalizedTitle :: string
  normalizedDescription :: string
  allTokens :: "string list"

record catalogue =
  allProducts :: "product list"
  searchIndex :: "indexEntry list"

text \<open>\<^verbatim>\<open>product.original_data?.title\<close> and \<^verbatim>\<open>product.original_data?.description\<close>\<close>

definition title_of :: "product \<Rightarrow> string option" where
  "title_of p = (case original_data p of None \<Rightarrow> None | Some d \<Rightarrow> title d)"

definition description_of :: "product \<Rightarrow> string option" where
  "description_of p = (case original_data p of None \<Rightarrow> None | Some d \<Rightarrow> description d)"

text \<open>\<^verbatim>\<open>x || ''\<close>\<close>

definition or_empty :: "string option \<Rightarrow> string option" where
  "or_empty x = (case x of None \<Rightarrow> Some [] | Some s \<Rightarrow> if s = [] then Some [] else Some s)"

definition buildSearchIndex :: "catalogue \<Rightarrow> catalogue" where
  "buildSearchIndex c = c\<lparr>searchIndex :=
     map (\<lambda>(index, product).
            \<lparr>productIndex = index,
             titleTokens = tokenize (title_of product),
             descriptionTokens = tokenize (description_of product),
             normalizedTitle = normalizeText (title_of product),
             normalizedDescription = normalizeText (description_of product),
             allTokens = tokenize (or_empty (title_of product))
                         @ tokenize (or_empty (description_of product))\<rparr>)
         (enumerate 0 (allProducts c))\<rparr>"

section \<open>Numbers\<close>

text \<open>
  A JavaScript number is an IEEE 754 double.  \<open>to_double\<close> rounds the exact result of an
  arithmetic operation to the nearest double, ties to the even significand: 53 significant
  bits, and below \<open>2 ^ (- 1022)\<close> the fixed spacing \<open>2 ^ (- 1074)\<close> of the subnormal numbers.
  The overflow to \<^verbatim>\<open>Infinity\<close>, beyond \<open>2 ^ 1024\<close>, is not modelled.
  It is applied where the scorer divides, doubles and adds the coverage bonus; the
  similarity of \<open>fuzzyMatch\<close> above is compared as an exact fraction.
\<close>

definition pow2 :: "int \<Rightarrow> rat" where
  "pow2 e = (if 0 \<le> e then 2 ^ nat e else 1 / 2 ^ nat (- e))"

definition round_half_even :: "rat \<Rightarrow> int" where
  "round_half_even x =
     (let f = \<lfloor>x\<rfloor>; d = x - of_int f
      in if d < 1 / 2 then f else if 1 / 2 < d then f + 1 else if even f then f else f + 1)"

text \<open>For a positive \<open>x\<close>, the exponent \<open>k\<close> with \<open>2 ^ k \<le> x < 2 ^ (k + 1)\<close>.\<close>

definition ilog2 :: "rat \<Rightarrow> int" where
  "ilog2 x = (let k = bitlen (fst (quotient_of x)) - bitlen (snd (quotient_of x))
              in if pow2 k \<le> x then k else k - 1)"

definition to_double :: "rat \<Rightarrow> rat" where
  "to_double x =
     (if x = 0 then 0
      else (let a = \<bar>x\<bar>;
                e = max (ilog2 a - 52) (- 1074);
                m = round_half_even (a / pow2 e)
            in sgn x * of_int m * pow2 e))"

section \<open>Relevance scorer\<close>

record relevance =
  score :: rat
  matchedTerms :: nat
  totalTerms :: nat
  coverage :: rat

text \<open>
  \<open>TypeError\<close>: a property of \<^verbatim>\<open>undefined\<close> is read.  \<open>NotANumber\<close>: the scorer is called
  with no search token, so that its score and coverage are \<open>0 / 0\<close>; the search never does
  that, and the rationals have no such value.
\<close>

datatype error = TypeError | NotANumber

text \<open>The body of \<^verbatim>\<open>searchTokens.forEach\<close>: the term's score and whether it matched.
  The bonuses are multiples of one half, whose sums are doubles, so that no rounding is
  written for them.\<close>

definition scoreTerm :: "indexEntry \<Rightarrow> string \<Rightarrow> rat \<times> bool" where
  "scoreTerm product searchToken =
     (let st0 = (0, False);
          st1 = (if searchToken \<in> set (titleTokens product) then (fst st0 + 3, True) else st0);
          st2 = fold (\<lambda>titleToken st.
                        if fuzzyMatch searchToken titleToken default_threshold
                        then (fst st + 2, True) else st)
                  (titleTokens product) st1;
          st3 = (if searchToken \<in> set (descriptionTokens product) then (fst st2 + 1, True) else st2);
          st4 = fold (\<lambda>descToken st.
                        if fuzzyMatch searchToken descToken default_threshold
                        then (fst st + 1 / 2, True) else st)
                  (descriptionTokens product) st3;
          st5 = (if includes_str (normalizedTitle product) searchToken
                 then (fst st4 + 1, True) else st4);
          st6 = (if includes_str (normalizedDescription product) searchToken
                 then (fst st5 + 1 / 2, True) else st5)
      in st6)"

text \<open>The whole loop: the running \<open>score\<close> and \<open>matchedTerms\<close>.\<close>

definition scoreTerms :: "indexEntry \<Rightarrow> string list \<Rightarrow> rat \<times> nat" where
  "scoreTerms product searchTokens =
     fold (\<lambda>searchToken (score', matchedTerms').
             (let (termScore, termMatched) = scoreTerm product searchToken
              in if termMatched then (score' + termScore, matchedTerms' + 1)
                 else (score', matchedTerms')))
       searchTokens (0, 0)"

text \<open>The division, the product and the final sum are rounded:
  \<^verbatim>\<open>(matchedTerms / searchTokens.length) * 2\<close> and \<^verbatim>\<open>score += coverageBonus\<close>.\<close>

definition calculateRelevanceScore :: "catalogue \<Rightarrow> string list \<Rightarrow> nat \<Rightarrow> error + relevance" where
  "calculateRelevanceScore c searchTokens productIndex' =
     (if searchTokens = [] then Inl NotANumber
      else if productIndex' \<ge> length (searchIndex c) then Inl TypeError
      else (let product = searchIndex c ! productIndex';
                (score', matchedTerms') = scoreTerms product searchTokens;
                coverageBonus =
                  to_double (to_double (of_nat matchedTerms' / of_nat (length searchTokens)) * 2)
            in Inr \<lparr>score = to_double (score' + coverageBonus),
                    matchedTerms = matchedTerms',
                    totalTerms = length searchTokens,
                    coverage = to_double (of_nat matchedTerms' / of_nat (length searchTokens))\<rparr>))"

section \<open>Search orchestrator\<close>

text \<open>A result of the search.  The pass-through of an empty query builds objects with a
  product and a score only; an index out of range reads \<^verbatim>\<open>undefined\<close>.\<close>

record result =
  res_product :: "product option"
  res_score :: rat
  res_matchedTerms :: "nat option"
  res_coverage :: "rat option"

definition lookup :: "'a list \<Rightarrow> nat \<Rightarrow> 'a option" where
  "lookup xs i = (if i < length xs then Some (xs ! i) else None)"

text \<open>\<^verbatim>\<open>x || 0\<close>\<close>

definition or_zero :: "rat option \<Rightarrow> rat" where
  "or_zero x = (case x of None \<Rightarrow> 0 | Some v \<Rightarrow> v)"

text \<open>The comparator of the sort.  A subtraction with a missing coverage is not a number,
  which the sort takes as 0; reading the confidence of a missing product throws.  The sort
  uses the sign of the difference only, and the rounded difference of two doubles has the
  sign of the exact one.\<close>

definition compareResults :: "result \<Rightarrow> result \<Rightarrow> error + rat" where
  "compareResults a b =
     (if res_score b \<noteq> res_score a then Inr (res_score b - res_score a)
      else if res_coverage b \<noteq> res_coverage a then
        (case (res_coverage b, res_coverage a) of
           (Some cb, Some ca) \<Rightarrow> Inr (cb - ca)
         | _ \<Rightarrow> Inr 0)
      else (case res_product b of
              None \<Rightarrow> Inl TypeError
            | Some pb \<Rightarrow>
                (case res_product a of
                   None \<Rightarrow> Inl TypeError
                 | Some pa \<Rightarrow> Inr (or_zero (confidence_score pb) - or_zero (confidence_score pa)))))"

text \<open>
  \<^verbatim>\<open>Array.prototype.sort\<close> with a comparator is a stable sort: \<open>a\<close> comes before \<open>b\<close> when
  the comparator is negative, after it when positive, and the two keep their order at 0.
  It is modelled as insertion from the right; an exception of the comparator ends the sort.
\<close>

fun insort_cmp :: "('a \<Rightarrow> 'a \<Rightarrow> error + rat) \<Rightarrow> 'a \<Rightarrow> 'a list \<Rightarrow> error + 'a list" where
  "insort_cmp cmp x [] = Inr [x]"
| "insort_cmp cmp x (y # ys) =
     (case cmp x y of
        Inl e \<Rightarrow> Inl e
      | Inr v \<Rightarrow> if v \<le> 0 then Inr (x # y # ys)
                else (case insort_cmp cmp x ys of Inl e \<Rightarrow> Inl e | Inr zs \<Rightarrow> Inr (y # zs)))"

fun sort_cmp :: "('a \<Rightarrow> 'a \<Rightarrow> error + rat) \<Rightarrow> 'a list \<Rightarrow> error + 'a list" where
  "sort_cmp cmp [] = Inr []"
| "sort_cmp cmp (x # xs) =
     (case sort_cmp cmp xs of Inl e \<Rightarrow> Inl e | Inr ys \<Rightarrow> insort_cmp cmp x ys)"

text \<open>\<^verbatim>\<open>this.allProducts.map((_, index) => ({ product: this.allProducts[index], score: 0 }))\<close>\<close>

definition passThrough :: "catalogue \<Rightarrow> result list" where
  "passThrough c =
     map (\<lambda>(index, _). \<lparr>res_product = lookup (allProducts c) index, res_score = 0,
                         res_matchedTerms = None, res_coverage = None\<rparr>)
       (enumerate 0 (allProducts c))"

text \<open>The body of \<^verbatim>\<open>this.searchIndex.forEach\<close>, pushing onto \<open>results\<close>.\<close>

definition collectResult ::
  "catalogue \<Rightarrow> string list \<Rightarrow> nat \<times> indexEntry \<Rightarrow> error + result list \<Rightarrow> error + result list" where
  "collectResult c searchTokens = (\<lambda>(searchIndex', indexedProduct) acc.
     (case acc of
        Inl e \<Rightarrow> Inl e
      | Inr results \<Rightarrow>
          (case calculateRelevanceScore c searchTokens searchIndex' of
             Inl e \<Rightarrow> Inl e
           | Inr relevance \<Rightarrow>
               if matchedTerms relevance > 0
               then Inr (results @
                      [\<lparr>res_product = lookup (allProducts c) (productIndex indexedProduct),
                        res_score = score relevance,
                        res_matchedTerms = Some (matchedTerms relevance),
                        res_coverage = Some (coverage relevance)\<rparr>])
               else Inr results)))"

definition collectResults :: "catalogue \<Rightarrow> string list \<Rightarrow> error + result list" where
  "collectResults c searchTokens =
     fold (collectResult c searchTokens) (enumerate 0 (searchIndex c)) (Inr [])"

definition performAdvancedSearch :: "catalogue \<Rightarrow> string option \<Rightarrow> error + result list" where
  "performAdvancedSearch c query =
     (if (case query of None \<Rightarrow> True | Some q \<Rightarrow> q = [] \<or> length (trim q) = 0)
      then Inr (passThrough c)
      else (let searchTokens = tokenize query
            in if length searchTokens = 0 then Inr (passThrough c)
               else (case collectResults c searchTokens of
                       Inl e \<Rightarrow> Inl e
                     | Inr results \<Rightarrow> sort_cmp compareResults results)))"

section \<open>Suggestion generator\<close>

text \<open>\<^verbatim>\<open>suggestions.add(token)\<close> on a \<^verbatim>\<open>Set\<close>, which keeps the order of first insertion.\<close>

definition set_add :: "string list \<Rightarrow> string \<Rightarrow> string list" where
  "set_add suggestions token = (if token \<in> set suggestions then suggestions else suggestions @ [token])"

definition suggestStep :: "string \<Rightarrow> string \<Rightarrow> string list \<Rightarrow> string list" where
  "suggestStep token queryToken suggestions =
     (let s1 = (if token \<noteq> queryToken \<and> fuzzyMatch queryToken token (7 / 10)
                then set_add suggestions token else suggestions);
          s2 = (if length token > length queryToken \<and> includes_str token queryToken
                then set_add s1 token else s1)
      in s2)"

definition generateSearchSuggestions :: "catalogue \<Rightarrow> string option \<Rightarrow> string list" where
  "generateSearchSuggestions c query =
     (let queryTokens = tokenize query;
          suggestions =
            fold (\<lambda>product. fold (\<lambda>token. fold (suggestStep token) queryTokens) (allTokens product))
              (searchIndex c) []
      in take 5 suggestions)"

section \<open>Auxiliary notions for the proofs\<close>

text \<open>A digit or a lower-case ASCII letter: what \<^const>\<open>normalizeText\<close> leaves besides spaces.\<close>

definition plain :: "char \<Rightarrow> bool" where
  "plain c = (let n = code_unit c in (48 \<le> n \<and> n \<le> 57) \<or> (97 \<le> n \<and> n \<le> 122))"

text \<open>The three character-wise steps of \<^const>\<open>normalizeText\<close> in one.\<close>

definition clean_char :: "char \<Rightarrow> char" where
  "clean_char c = (let l = lower_char c; p = (if \<not> is_word l \<and> \<not> is_space l then CHR '' '' else l)
     in if p = CHR ''-'' \<or> p = CHR ''_'' then CHR '' '' else p)"

definition no_space_pair :: "char \<Rightarrow> char \<Rightarrow> bool" where
  "no_space_pair a b = (\<not> (is_space a \<and> is_space b))"

text \<open>A small catalogue on which the theorems are exercised: a product with title and
  description, one with a title only, and one with no text at all.\<close>

definition demo_products :: "product list" where
  "demo_products =
     [\<lparr>original_data = Some \<lparr>title = Some ''Floral Dress'',
                              description = Some ''Summer floral pattern''\<rparr>,
       confidence_score = Some (1 / 2)\<rparr>,
      \<lparr>original_data = Some \<lparr>title = Some ''Dress'', description = None\<rparr>,
       confidence_score = None\<rparr>,
      \<lparr>original_data = None, confidence_score = None\<rparr>]"

definition demo_catalogue :: catalogue where
  "demo_catalogue = buildSearchIndex \<lparr>allProducts = demo_products, searchIndex = []\<rparr>"

text \<open>One bonus of the scorer: when the condition holds, add to the term's score and mark
  the term as matched.\<close>

definition bonus :: "bool \<Rightarrow> rat \<Rightarrow> rat \<times> bool \<Rightarrow> rat \<times> bool" where
  "bonus b k st = (if b then (fst st + k, True) else st)"

text \<open>The index entry of the second product of the small catalogue.\<close>

definition demo_entry :: indexEntry where
  "demo_entry = \<lparr>productIndex = 1, titleTokens = [''dress''], descriptionTokens = [],
     normalizedTitle = ''dress'', normalizedDescription = [], allTokens = [''dress'']\<rparr>"

text \<open>What the search pushes for the index entry at position \<open>i\<close>: one result when a term
  matched, none otherwise; and the list of all of them, in index order, before the sort.\<close>

definition resultAt :: "catalogue \<Rightarrow> string list \<Rightarrow> nat \<Rightarrow> result list" where
  "resultAt c searchTokens i =
     (case calculateRelevanceScore c searchTokens i of
        Inl _ \<Rightarrow> []
      | Inr relevance \<Rightarrow>
          if matchedTerms relevance > 0
          then [\<lparr>res_product = lookup (allProducts c) (productIndex (searchIndex c ! i)),
                 res_score = score relevance,
                 res_matchedTerms = Some (matchedTerms relevance),
                 res_coverage = Some (coverage relevance)\<rparr>]
          else [])"

definition retained :: "catalogue \<Rightarrow> string list \<Rightarrow> result list" where
  "retained c searchTokens = concat (map (resultAt c searchTokens) [0..<length (searchIndex c)])"

text \<open>The three sort keys of a result, and the order the comparator stands for: a higher
  score first, then a higher coverage, then a higher confidence (a missing one counts as 0).\<close>

definition res_confidence :: "result \<Rightarrow> rat" where
  "res_confidence r = or_zero (case res_product r of None \<Rightarrow> None | Some p \<Rightarrow> confidence_score p)"

definition sort_key :: "result \<Rightarrow> rat \<times> rat \<times> rat" where
  "sort_key r = (res_score r, or_zero (res_coverage r), res_confidence r)"

definition ranks_before :: "result \<Rightarrow> result \<Rightarrow> bool" where
  "ranks_before a b =
     (res_score a > res_score b
      \<or> (res_score a = res_score b
          \<and> (or_zero (res_coverage a) > or_zero (res_coverage b)
              \<or> (or_zero (res_coverage a) = or_zero (res_coverage b)
                  \<and> res_confidence a \<ge> res_confidence b))))"

text \<open>A result with a product and a coverage, as the search builds them.\<close>

definition complete_result :: "result \<Rightarrow> bool" where
  "complete_result r = (res_product r \<noteq> None \<and> res_coverage r \<noteq> None)"

text \<open>The scorer reports a matched term for the index entry at position \<open>i\<close>.\<close>

definition matches :: "catalogue \<Rightarrow> string list \<Rightarrow> nat \<Rightarrow> bool" where
  "matches c searchTokens i =
     (case calculateRelevanceScore c searchTokens i of
        Inl _ \<Rightarrow> False
      | Inr relevance \<Rightarrow> matchedTerms relevance > 0)"

text \<open>
  The recurrence that the matrix of \<^const>\<open>levenshteinDistance\<close> tabulates: the entry at row
  \<open>i\<close> and column \<open>j\<close>, the edit distance between the first \<open>i\<close> characters of \<open>str2\<close> and
  the first \<open>j\<close> characters of \<open>str1\<close>.
\<close>

fun lev_entry :: "string \<Rightarrow> string \<Rightarrow> nat \<Rightarrow> nat \<Rightarrow> nat" where
  "lev_entry str1 str2 0 j = j"
| "lev_entry str1 str2 (Suc i) 0 = Suc i"
| "lev_entry str1 str2 (Suc i) (Suc j) =
     (if str2 ! i = str1 ! j then lev_entry str1 str2 i j
      else min (lev_entry str1 str2 i j + 1)
             (min (lev_entry str1 str2 (Suc i) j + 1) (lev_entry str1 str2 i (Suc j) + 1)))"

text \<open>The matrix when the rows below \<open>k\<close> are filled and the others hold their first
  column only.\<close>

definition lev_rows :: "string \<Rightarrow> string \<Rightarrow> nat \<Rightarrow> nat list list" where
  "lev_rows str1 str2 k =
     map (\<lambda>i. if i < k then map (lev_entry str1 str2 i) [0..<Suc (length str1)] else [i])
       [0..<Suc (length str2)]"

text \<open>
  A catalogue on which rounding shows.  For the six-token query \<open>aa bb cc dd ee ff\<close> the
  first product matches four terms through its normalized description, one half each, and
  the second one term, with one for the title phrase and two for the description: exactly,
  both scores are 10 / 3.  For the query \<open>zz gg hh\<close> the third product matches one term of
  three with the smallest bonus.
\<close>

definition rounding_products :: "product list" where
  "rounding_products =
     [\<lparr>original_data = Some \<lparr>title = None, description = Some ''xaabbccddx''\<rparr>,
       confidence_score = None\<rparr>,
      \<lparr>original_data = Some \<lparr>title = Some ''xeex'', description = Some ''ee''\<rparr>,
       confidence_score = None\<rparr>,
      \<lparr>original_data = Some \<lparr>title = None, description = Some ''xzzx''\<rparr>,
       confidence_score = None\<rparr>]"

definition rounding_catalogue :: catalogue where
  "rounding_catalogue = buildSearchIndex \<lparr>allProducts = rounding_products, searchIndex = []\<rparr>"

section \<open>The normalizer is idempotent\<close>

lemma code_unit_lower: "code_unit (lower_char c) < 65 \<or> 90 < code_unit (lower_char c)"
  by (auto simp: lower_char_def code_unit_def Let_def)

lemma code_unit_inj: "code_unit c = code_unit d \<Longrightarrow> c = d"
  by (simp add: code_unit_def)

lemma underscore_code: "code_unit c = 95 \<Longrightarrow> c = CHR ''_''"
  by (rule code_unit_inj) (simp add: code_unit_def)

lemma clean_char_cases: "plain (clean_char c) \<or> is_space (clean_char c)"
proof -
  have sp: "is_space (CHR '' '')" by (simp add: is_space_def code_unit_def)
  show ?thesis
  proof (cases "is_word (lower_char c)")
    case True
    then show ?thesis
      using code_unit_lower[of c] sp underscore_code[of "lower_char c"]
      by (auto simp: clean_char_def Let_def is_word_def plain_def)
  next
    case False
    then show ?thesis using sp
      by (auto simp: clean_char_def Let_def is_space_def code_unit_def)
  qed
qed

lemma pre_map: "replace_dash (replace_punct (toLowerCase s)) = map clean_char s"
  by (simp add: replace_dash_def replace_punct_def toLowerCase_def clean_char_def Let_def)

lemma plain_fix: "plain c \<or> c = CHR '' '' \<Longrightarrow> clean_char c = c"
  by (auto simp: plain_def clean_char_def lower_char_def is_word_def is_space_def code_unit_def Let_def)

lemma plain_not_space: "plain c \<Longrightarrow> \<not> is_space c"
  by (auto simp: plain_def is_space_def Let_def)

lemma collapse_chars: "c \<in> set (collapse_spaces s) \<Longrightarrow> c = CHR '' '' \<or> (c \<in> set s \<and> \<not> is_space c)"
  by (induction s rule: collapse_spaces.induct) (auto split: if_splits dest: set_dropWhileD)

lemma collapse_hd:
  "s = [] \<or> \<not> is_space (hd s) \<Longrightarrow> collapse_spaces s = [] \<or> \<not> is_space (hd (collapse_spaces s))"
  by (cases s) auto

lemma collapse_successively: "successively no_space_pair (collapse_spaces s)"
proof (induction s rule: collapse_spaces.induct)
  case 1
  then show ?case by simp
next
  case (2 c cs)
  show ?case
  proof (cases "is_space c")
    case True
    let ?r = "dropWhile is_space cs"
    have "?r = [] \<or> \<not> is_space (hd ?r)" using hd_dropWhile[of is_space cs] by blast
    then have "collapse_spaces ?r = [] \<or> \<not> is_space (hd (collapse_spaces ?r))"
      by (rule collapse_hd)
    with True 2 show ?thesis
      by (auto simp: successively_Cons no_space_pair_def)
  next
    case False
    with 2 show ?thesis by (auto simp: successively_Cons no_space_pair_def)
  qed
qed

lemma collapse_fix:
  "\<forall>c\<in>set s. is_space c \<longrightarrow> c = CHR '' '' \<Longrightarrow> successively no_space_pair s \<Longrightarrow> collapse_spaces s = s"
proof (induction s)
  case Nil
  then show ?case by simp
next
  case (Cons c cs)
  then have ih: "collapse_spaces cs = cs" by (auto simp: successively_Cons)
  show ?case
  proof (cases "is_space c")
    case True
    with Cons.prems have "c = CHR '' ''" and "cs = [] \<or> \<not> is_space (hd cs)"
      by (auto simp: successively_Cons no_space_pair_def)
    then have "dropWhile is_space cs = cs" by (cases cs) auto
    with True ih \<open>c = CHR '' ''\<close> show ?thesis by simp
  next
    case False
    with ih show ?thesis by simp
  qed
qed

lemma successively_dropWhile: "successively P xs \<Longrightarrow> successively P (dropWhile Q xs)"
  by (metis successively_append_iff takeWhile_dropWhile_id)

lemma successively_rev_nsp: "successively no_space_pair (rev s) = successively no_space_pair s"
proof -
  have "(\<lambda>x y. no_space_pair y x) = no_space_pair" by (auto simp: no_space_pair_def fun_eq_iff)
  then show ?thesis by (simp only: successively_rev)
qed

lemma trim_successively: "successively no_space_pair s \<Longrightarrow> successively no_space_pair (trim s)"
  by (simp add: trim_def successively_rev_nsp successively_dropWhile)

lemma trim_set: "set (trim s) \<subseteq> set s"
  by (auto simp: trim_def dest!: set_dropWhileD)

lemma dropWhile_fix: "xs = [] \<or> \<not> P (hd xs) \<Longrightarrow> dropWhile P xs = xs"
  by (cases xs) auto

lemma trim_start_fix: "dropWhile is_space (trim s) = trim s"
proof -
  let ?t = "dropWhile is_space s"
  let ?u = "dropWhile is_space (rev ?t)"
  have t: "?t = [] \<or> \<not> is_space (hd ?t)" using hd_dropWhile[of is_space s] by blast
  have "rev ?u = [] \<or> \<not> is_space (hd (rev ?u))"
  proof (cases "?u = []")
    case True
    then show ?thesis by (simp only: rev.simps simp_thms)
  next
    case False
    then obtain ps where ps: "rev ?t = ps @ ?u" by (metis takeWhile_dropWhile_id)
    from False ps have "last (rev ?t) = last ?u" by (metis last_appendR)
    moreover from False ps have "?t \<noteq> []" by (metis dropWhile.simps(1) rev.simps(1))
    ultimately have "hd ?t = hd (rev ?u)" by (metis False hd_rev last_rev rev_rev_ident)
    with t \<open>?t \<noteq> []\<close> show ?thesis by metis
  qed
  then have "dropWhile is_space (rev ?u) = rev ?u" by (rule dropWhile_fix)
  then show ?thesis by (simp only: trim_def)
qed

lemma trim_trim: "trim (trim s) = trim s"
proof -
  have "trim (trim s) = rev (dropWhile is_space (rev (trim s)))"
    by (simp only: trim_def[of "trim s"] trim_start_fix)
  also have "\<dots> = trim s" by (simp add: trim_def)
  finally show ?thesis .
qed

lemma normalized_chars: "c \<in> set (normalizeText x) \<Longrightarrow> plain c \<or> c = CHR '' ''"
proof (cases x)
  case None
  assume "c \<in> set (normalizeText x)"
  with None show ?thesis by (simp add: normalizeText_def)
next
  case (Some s)
  assume c: "c \<in> set (normalizeText x)"
  show ?thesis
  proof (cases "s = []")
    case True
    with c Some show ?thesis by (simp add: normalizeText_def)
  next
    case False
    with c Some have "c \<in> set (trim (collapse_spaces (map clean_char s)))"
      by (simp add: normalizeText_def pre_map)
    then have "c \<in> set (collapse_spaces (map clean_char s))" using trim_set by blast
    then have "c = CHR '' '' \<or> (c \<in> set (map clean_char s) \<and> \<not> is_space c)"
      by (rule collapse_chars)
    then show ?thesis using clean_char_cases by auto
  qed
qed

lemma normalized_fix:
  assumes chars: "\<forall>c\<in>set s. plain c \<or> c = CHR '' ''"
    and succ: "successively no_space_pair s"
    and tr: "trim s = s"
  shows "normalizeText (Some s) = s"
proof (cases "s = []")
  case True
  then show ?thesis by (simp add: normalizeText_def)
next
  case False
  have m: "map clean_char s = s" using chars by (simp add: map_idI plain_fix)
  have "\<forall>c\<in>set s. is_space c \<longrightarrow> c = CHR '' ''" using chars plain_not_space by blast
  then have "collapse_spaces s = s" using succ by (rule collapse_fix)
  with False m tr show ?thesis by (simp add: normalizeText_def pre_map)
qed

text \<open>
  Claim C9: \<^verbatim>\<open>normalize\<close> is idempotent.  Normalizing the result of \<^const>\<open>normalizeText\<close> again
  gives the same string, for every input string and for a missing input.
\<close>

theorem normalizeText_idempotent: "normalizeText (Some (normalizeText x)) = normalizeText x"
proof (rule normalized_fix)
  show "\<forall>c\<in>set (normalizeText x). plain c \<or> c = CHR '' ''" using normalized_chars by blast
  show "successively no_space_pair (normalizeText x)"
    by (auto simp: normalizeText_def trim_successively collapse_successively split: option.splits)
  show "trim (normalizeText x) = normalizeText x"
  proof (cases x)
    case None
    then show ?thesis by (simp add: normalizeText_def trim_def)
  next
    case (Some s)
    then show ?thesis by (cases "s = []") (simp_all add: normalizeText_def trim_trim, simp add: trim_def)
  qed
qed

section \<open>Rounding to a double\<close>










lemma to_double_small:
  "to_double 1 = 1" "to_double 2 = 2" "to_double 8 = 8"
  by code_simp+

section \<open>The fuzzy matcher\<close>

subsection \<open>The matrix of the edit distance\<close>

lemma lev_entry_sym: "lev_entry str1 str2 i j = lev_entry str2 str1 j i"
proof (induction str1 str2 i j rule: lev_entry.induct)
  case (1 str1 str2 j)
  then show ?case by (cases j) simp_all
next
  case (2 str1 str2 i)
  then show ?case by simp
next
  case (3 str1 str2 i j)
  then show ?case by (auto simp: min.commute min.left_commute)
qed

lemma lev_entry_col0: "lev_entry str1 str2 i 0 = i"
  by (cases i) simp_all

lemma set_at_length: "set_at xs (length xs) v = xs @ [v]"
  by (simp add: set_at_def)

lemma init_rows_fold:
  "fold (\<lambda>i matrix. set_at matrix i [i]) [0..<n] [] = map (\<lambda>i. [i]) [0..<n]"
  by (induction n) (simp_all add: set_at_def)

lemma init_rows_eq: "init_rows str2 = map (\<lambda>i. [i]) [0..<Suc (length str2)]"
  unfolding init_rows_def by (rule init_rows_fold)

lemma first_row_fold:
  assumes "m \<noteq> []" and "m ! 0 = [0]"
  shows "fold (\<lambda>j matrix. matrix[0 := set_at (matrix ! 0) j j]) [0..<Suc n] m = m[0 := [0..<Suc n]]"
proof (induction n)
  case 0
  from assms show ?case by (simp add: set_at_def list_update_same_conv)
next
  case (Suc n)
  have "fold (\<lambda>j matrix. matrix[0 := set_at (matrix ! 0) j j]) [0..<Suc (Suc n)] m
        = (m[0 := [0..<Suc n]])[0 := set_at (m[0 := [0..<Suc n]] ! 0) (Suc n) (Suc n)]"
    using Suc by simp
  also have "m[0 := [0..<Suc n]] ! 0 = [0..<Suc n]" using assms(1) by simp
  also have "set_at [0..<Suc n] (Suc n) (Suc n) = [0..<Suc (Suc n)]"
    using set_at_length[of "[0..<Suc n]" "Suc n"] by simp
  finally show ?case by simp
qed

lemma lev_rows_nth:
  "i \<le> length str2 \<Longrightarrow>
     lev_rows str1 str2 k ! i =
       (if i < k then map (lev_entry str1 str2 i) [0..<Suc (length str1)] else [i])"
  unfolding lev_rows_def by (simp del: upt_Suc)

lemma lev_rows_length: "length (lev_rows str1 str2 k) = Suc (length str2)"
  by (simp add: lev_rows_def)

lemma init_first_row_eq: "init_first_row str1 (init_rows str2) = lev_rows str1 str2 1"
proof -
  let ?m = "map (\<lambda>i. [i]) [0..<Suc (length str2)]"
  have ne: "?m \<noteq> []" by simp
  have z: "?m ! 0 = [0]" by (simp add: upt_rec)
  have r0: "map (lev_entry str1 str2 0) [0..<Suc (length str1)] = [0..<Suc (length str1)]"
    by (rule map_idI) simp
  have "init_first_row str1 (init_rows str2) = ?m[0 := [0..<Suc (length str1)]]"
    unfolding init_first_row_def init_rows_eq by (rule first_row_fold[OF ne z])
  also have "\<dots> = lev_rows str1 str2 1"
  proof (rule nth_equalityI)
    show "length (?m[0 := [0..<Suc (length str1)]]) = length (lev_rows str1 str2 1)"
      by (simp add: lev_rows_length)
  next
    fix i assume "i < length (?m[0 := [0..<Suc (length str1)]])"
    then have i: "i \<le> length str2" by simp
    show "?m[0 := [0..<Suc (length str1)]] ! i = lev_rows str1 str2 1 ! i"
    proof (cases "i = 0")
      case True
      then show ?thesis unfolding lev_rows_nth[OF i] by (simp add: r0 del: upt_Suc)
    next
      case False
      with i show ?thesis unfolding lev_rows_nth[OF i] by (simp del: upt_Suc)
    qed
  qed
  finally show ?thesis .
qed

text \<open>One step of the inner loop: with the row above filled and the row \<open>i\<close> filled up to
  column \<open>j\<close>, the cell written at column \<open>j\<close> is the entry of the recurrence.\<close>

lemma lev_cell_step:
  assumes i: "0 < i" "i < length m"
    and j: "0 < j" "j \<le> length str1"
    and above: "m ! (i - 1) = map (lev_entry str1 str2 (i - 1)) [0..<Suc (length str1)]"
    and row: "m ! i = map (lev_entry str1 str2 i) [0..<j]"
  shows "lev_cell str1 str2 i j m = m[i := map (lev_entry str1 str2 i) [0..<Suc j]]"
proof -
  obtain i' where i': "i = Suc i'" using i(1) by (cases i) auto
  obtain j' where j': "j = Suc j'" using j(1) by (cases j) auto
  have a1: "m ! (i - 1) ! (j - 1) = lev_entry str1 str2 i' j'"
    using j above by (simp add: i' j' nth_map_upt del: upt_Suc)
  have a2: "m ! (i - 1) ! j = lev_entry str1 str2 i' j"
    using j above by (simp add: i' nth_map_upt del: upt_Suc)
  have a3: "m ! i ! (j - 1) = lev_entry str1 str2 i j'"
    using row by (simp add: j' nth_map_upt del: upt_Suc)
  have v: "(if str2 ! (i - 1) = str1 ! (j - 1) then m ! (i - 1) ! (j - 1)
            else min (m ! (i - 1) ! (j - 1) + 1) (min (m ! i ! (j - 1) + 1) (m ! (i - 1) ! j + 1)))
           = lev_entry str1 str2 i j"
    unfolding a1 a2 a3 by (simp add: i' j')
  have "set_at (m ! i) j (lev_entry str1 str2 i j) = map (lev_entry str1 str2 i) [0..<Suc j]"
    unfolding row using set_at_length[of "map (lev_entry str1 str2 i) [0..<j]"] by simp
  then show ?thesis unfolding lev_cell_def Let_def v by simp
qed

lemma lev_row_fold:
  assumes i: "0 < i" "i < length m"
    and above: "m ! (i - 1) = map (lev_entry str1 str2 (i - 1)) [0..<Suc (length str1)]"
    and row: "m ! i = [i]"
    and k: "k \<le> length str1"
  shows "fold (lev_cell str1 str2 i) [1..<Suc k] m = m[i := map (lev_entry str1 str2 i) [0..<Suc k]]"
  using k
proof (induction k)
  case 0
  have "m[i := [i]] = m" using list_update_id[of m i] row by simp
  then show ?case by (simp add: lev_entry_col0)
next
  case (Suc k)
  let ?m = "m[i := map (lev_entry str1 str2 i) [0..<Suc k]]"
  from Suc have ih: "fold (lev_cell str1 str2 i) [1..<Suc k] m = ?m" by simp
  have ab: "?m ! (i - 1) = map (lev_entry str1 str2 (i - 1)) [0..<Suc (length str1)]"
    using i above by simp
  have rw: "?m ! i = map (lev_entry str1 str2 i) [0..<Suc k]" using i by simp
  have len: "i < length ?m" using i by simp
  have "fold (lev_cell str1 str2 i) [1..<Suc (Suc k)] m = lev_cell str1 str2 i (Suc k) ?m"
    using ih by simp
  also have "\<dots> = ?m[i := map (lev_entry str1 str2 i) [0..<Suc (Suc k)]]"
    by (rule lev_cell_step[OF i(1) len _ _ ab rw]) (use Suc.prems in simp_all)
  finally show ?case by simp
qed

lemma lev_row_eq:
  assumes "0 < k" "k \<le> length str2"
  shows "lev_row str1 str2 k (lev_rows str1 str2 k) = lev_rows str1 str2 (Suc k)"
proof -
  let ?m = "lev_rows str1 str2 k"
  have len: "k < length ?m" using assms by (simp add: lev_rows_length)
  have above: "?m ! (k - 1) = map (lev_entry str1 str2 (k - 1)) [0..<Suc (length str1)]"
    using assms by (simp add: lev_rows_nth del: upt_Suc)
  have row: "?m ! k = [k]" using assms by (simp add: lev_rows_nth del: upt_Suc)
  have "lev_row str1 str2 k ?m = ?m[k := map (lev_entry str1 str2 k) [0..<Suc (length str1)]]"
    unfolding lev_row_def by (rule lev_row_fold[OF assms(1) len above row]) simp
  also have "\<dots> = lev_rows str1 str2 (Suc k)"
  proof (rule nth_equalityI)
    show "length (?m[k := map (lev_entry str1 str2 k) [0..<Suc (length str1)]])
            = length (lev_rows str1 str2 (Suc k))"
      by (simp add: lev_rows_length)
  next
    fix i assume "i < length (?m[k := map (lev_entry str1 str2 k) [0..<Suc (length str1)]])"
    then have i: "i \<le> length str2" by (simp add: lev_rows_length)
    show "?m[k := map (lev_entry str1 str2 k) [0..<Suc (length str1)]] ! i
            = lev_rows str1 str2 (Suc k) ! i"
    proof (cases "i = k")
      case True
      with len show ?thesis unfolding lev_rows_nth[OF i] by (simp del: upt_Suc)
    next
      case False
      then show ?thesis unfolding lev_rows_nth[OF i] nth_list_update_neq[OF False[symmetric]]
        by (auto simp del: upt_Suc)
    qed
  qed
  finally show ?thesis .
qed

lemma lev_matrix_fold:
  "k \<le> length str2 \<Longrightarrow>
     fold (lev_row str1 str2) [1..<Suc k] (lev_rows str1 str2 1) = lev_rows str1 str2 (Suc k)"
proof (induction k)
  case 0
  then show ?case by simp
next
  case (Suc k)
  then have "fold (lev_row str1 str2) [1..<Suc (Suc k)] (lev_rows str1 str2 1)
               = lev_row str1 str2 (Suc k) (lev_rows str1 str2 (Suc k))"
    by simp
  also have "\<dots> = lev_rows str1 str2 (Suc (Suc k))"
    by (rule lev_row_eq) (use Suc.prems in simp_all)
  finally show ?case .
qed

text \<open>The loops of the source compute the recurrence.\<close>

lemma levenshteinDistance_entry:
  "levenshteinDistance str1 str2 = lev_entry str1 str2 (length str2) (length str1)"
proof -
  have "lev_matrix str1 str2 = lev_rows str1 str2 (Suc (length str2))"
    unfolding lev_matrix_def init_first_row_eq by (rule lev_matrix_fold) simp
  then show ?thesis
    unfolding levenshteinDistance_def
    by (simp add: lev_rows_nth nth_map_upt del: upt_Suc)
qed

text \<open>The standard reference value.\<close>

lemma levenshtein_kitten_sitting: "levenshteinDistance ''kitten'' ''sitting'' = 3"
  by code_simp

lemma levenshteinDistance_sym: "levenshteinDistance a b = levenshteinDistance b a"
  by (simp only: levenshteinDistance_entry lev_entry_sym[of a b])

subsection \<open>Symmetry\<close>

text \<open>
  Claim C6: \<^const>\<open>fuzzyMatch\<close> is symmetric in its two strings, at every threshold.
\<close>

theorem fuzzyMatch_symmetric: "fuzzyMatch a b t = fuzzyMatch b a t"
proof (cases "a = b")
  case True
  then show ?thesis by simp
next
  case False
  then have ne: "b \<noteq> a" by simp
  have m: "max (length a) (length b) = max (length b) (length a)" by (rule max.commute)
  show ?thesis
    unfolding fuzzyMatch_def Let_def levenshteinDistance_sym[of a b] m
    using False ne by auto
qed

section \<open>The index builder\<close>

lemma tokenize_or_empty: "tokenize (or_empty x) = tokenize x"
  by (cases x) (simp_all add: or_empty_def tokenize_def)

lemma length_buildSearchIndex: "length (searchIndex (buildSearchIndex c)) = length (allProducts c)"
  by (simp add: buildSearchIndex_def)

lemma allProducts_buildSearchIndex: "allProducts (buildSearchIndex c) = allProducts c"
  by (simp add: buildSearchIndex_def)

lemma nth_buildSearchIndex:
  assumes "i < length (allProducts c)"
  shows "searchIndex (buildSearchIndex c) ! i =
           \<lparr>productIndex = i,
            titleTokens = tokenize (title_of (allProducts c ! i)),
            descriptionTokens = tokenize (description_of (allProducts c ! i)),
            normalizedTitle = normalizeText (title_of (allProducts c ! i)),
            normalizedDescription = normalizeText (description_of (allProducts c ! i)),
            allTokens = tokenize (title_of (allProducts c ! i))
                        @ tokenize (description_of (allProducts c ! i))\<rparr>"
  using assms by (simp add: buildSearchIndex_def nth_enumerate_eq tokenize_or_empty)

text \<open>
  Claim C7: \<^const>\<open>buildSearchIndex\<close> makes one entry per product, the entry at position \<open>i\<close>
  built from the product at position \<open>i\<close> and pointing back to it; its \<open>allTokens\<close> are the
  title tokens followed by the description tokens, although the source tokenizes a second
  time; a missing title or description gives no tokens, and no error.
\<close>

theorem buildSearchIndex_positional:
  assumes "i < length (allProducts c)"
  shows "length (searchIndex (buildSearchIndex c)) = length (allProducts c)
       \<and> allProducts (buildSearchIndex c) = allProducts c
       \<and> productIndex (searchIndex (buildSearchIndex c) ! i) = i
       \<and> titleTokens (searchIndex (buildSearchIndex c) ! i) = tokenize (title_of (allProducts c ! i))
       \<and> descriptionTokens (searchIndex (buildSearchIndex c) ! i)
           = tokenize (description_of (allProducts c ! i))
       \<and> normalizedTitle (searchIndex (buildSearchIndex c) ! i)
           = normalizeText (title_of (allProducts c ! i))
       \<and> normalizedDescription (searchIndex (buildSearchIndex c) ! i)
           = normalizeText (description_of (allProducts c ! i))
       \<and> allTokens (searchIndex (buildSearchIndex c) ! i)
           = titleTokens (searchIndex (buildSearchIndex c) ! i)
             @ descriptionTokens (searchIndex (buildSearchIndex c) ! i)
       \<and> (title_of (allProducts c ! i) = None
            \<longrightarrow> titleTokens (searchIndex (buildSearchIndex c) ! i) = [])
       \<and> (description_of (allProducts c ! i) = None
            \<longrightarrow> descriptionTokens (searchIndex (buildSearchIndex c) ! i) = [])"
  using assms
  by (simp add: nth_buildSearchIndex length_buildSearchIndex allProducts_buildSearchIndex
      tokenize_def)

lemma demo_allProducts: "allProducts demo_catalogue = demo_products"
  by (simp add: demo_catalogue_def allProducts_buildSearchIndex)

lemma demo_searchIndex:
  "searchIndex demo_catalogue =
     [\<lparr>productIndex = 0, titleTokens = [''floral'', ''dress''],
       descriptionTokens = [''summer'', ''floral'', ''pattern''],
       normalizedTitle = ''floral dress'', normalizedDescription = ''summer floral pattern'',
       allTokens = [''floral'', ''dress'', ''summer'', ''floral'', ''pattern'']\<rparr>,
      \<lparr>productIndex = 1, titleTokens = [''dress''], descriptionTokens = [],
       normalizedTitle = ''dress'', normalizedDescription = [], allTokens = [''dress'']\<rparr>,
      \<lparr>productIndex = 2, titleTokens = [], descriptionTokens = [],
       normalizedTitle = [], normalizedDescription = [], allTokens = []\<rparr>]"
  by code_simp

theorem buildSearchIndex_positional_witness:
  "2 < length (allProducts \<lparr>allProducts = demo_products, searchIndex = []\<rparr>)
   \<and> length (searchIndex demo_catalogue) = 3
   \<and> productIndex (searchIndex demo_catalogue ! 2) = 2
   \<and> allTokens (searchIndex demo_catalogue ! 2) = []"
proof -
  have h: "2 < length (allProducts \<lparr>allProducts = demo_products, searchIndex = []\<rparr>)"
    by (simp add: demo_products_def)
  have t: "title_of (demo_products ! 2) = None" "description_of (demo_products ! 2) = None"
    by (simp_all add: demo_products_def title_of_def description_of_def)
  from buildSearchIndex_positional[OF h] h t show ?thesis
    by (simp add: demo_catalogue_def demo_products_def tokenize_def)
qed

section \<open>The relevance scorer\<close>

lemma bonus_fst: "fst (bonus b k st) = fst st + (if b then k else 0)"
  by (simp add: bonus_def)

lemma bonus_snd: "snd (bonus b k st) = (snd st \<or> b)"
  by (simp add: bonus_def)

lemma fold_bonus:
  "fold (\<lambda>x. bonus (P x) k) xs st =
     (fst st + k * of_nat (length (filter P xs)), snd st \<or> (\<exists>x\<in>set xs. P x))"
proof (induction xs arbitrary: st)
  case Nil
  then show ?case by simp
next
  case (Cons x xs)
  then show ?case by (cases "P x") (auto simp: algebra_simps bonus_def)
qed

lemma scoreTerm_bonus:
  "scoreTerm e t =
     bonus (includes_str (normalizedDescription e) t) (1 / 2)
      (bonus (includes_str (normalizedTitle e) t) 1
        (fold (\<lambda>x. bonus (fuzzyMatch t x default_threshold) (1 / 2)) (descriptionTokens e)
          (bonus (t \<in> set (descriptionTokens e)) 1
            (fold (\<lambda>x. bonus (fuzzyMatch t x default_threshold) 2) (titleTokens e)
              (bonus (t \<in> set (titleTokens e)) 3 (0, False))))))"
  by (simp only: scoreTerm_def Let_def bonus_def[abs_def])

lemma fuzzyMatch_refl: "fuzzyMatch t t threshold"
  by (simp add: fuzzyMatch_def)

text \<open>The per-term score as a sum of the six bonuses.\<close>

lemma scoreTerm_fst:
  "fst (scoreTerm e t) =
     (if t \<in> set (titleTokens e) then 3 else 0)
     + 2 * of_nat (length (filter (\<lambda>x. fuzzyMatch t x default_threshold) (titleTokens e)))
     + (if t \<in> set (descriptionTokens e) then 1 else 0)
     + (1 / 2) * of_nat (length (filter (\<lambda>x. fuzzyMatch t x default_threshold) (descriptionTokens e)))
     + (if includes_str (normalizedTitle e) t then 1 else 0)
     + (if includes_str (normalizedDescription e) t then 1 / 2 else 0)"
  by (simp only: scoreTerm_bonus bonus_fst fold_bonus fst_conv add_0)

lemma scoreTerm_snd:
  "snd (scoreTerm e t) \<longleftrightarrow>
     t \<in> set (titleTokens e)
     \<or> (\<exists>x\<in>set (titleTokens e). fuzzyMatch t x default_threshold)
     \<or> t \<in> set (descriptionTokens e)
     \<or> (\<exists>x\<in>set (descriptionTokens e). fuzzyMatch t x default_threshold)
     \<or> includes_str (normalizedTitle e) t
     \<or> includes_str (normalizedDescription e) t"
  by (simp only: scoreTerm_bonus bonus_snd fold_bonus snd_conv simp_thms disj_assoc)

lemma filter_length_pos: "x \<in> set xs \<Longrightarrow> P x \<Longrightarrow> 1 \<le> length (filter P xs)"
  by (induction xs) auto



text \<open>
  Claim C2: a query token that is a member of the title tokens earns the exact-title bonus
  of 3 and, from the loop over the title tokens, the fuzzy bonus of 2 for that same title
  token, because a string fuzzy-matches itself: the term's score is 3, plus 2 for each title
  token that fuzzy-matches (the token itself among them), plus the description and phrase
  bonuses, hence at least 5.
\<close>

theorem exact_title_match_stacks_fuzzy:
  assumes "t \<in> set (titleTokens e)"
  shows "fuzzyMatch t t default_threshold
       \<and> t \<in> set (filter (\<lambda>x. fuzzyMatch t x default_threshold) (titleTokens e))
       \<and> snd (scoreTerm e t)
       \<and> fst (scoreTerm e t) =
           3 + 2 * of_nat (length (filter (\<lambda>x. fuzzyMatch t x default_threshold) (titleTokens e)))
           + (if t \<in> set (descriptionTokens e) then 1 else 0)
           + (1 / 2) * of_nat (length (filter (\<lambda>x. fuzzyMatch t x default_threshold)
                                         (descriptionTokens e)))
           + (if includes_str (normalizedTitle e) t then 1 else 0)
           + (if includes_str (normalizedDescription e) t then 1 / 2 else 0)
       \<and> 5 \<le> fst (scoreTerm e t)"
proof -
  define ft where "ft = length (filter (\<lambda>x. fuzzyMatch t x default_threshold) (titleTokens e))"
  define fd where "fd = length (filter (\<lambda>x. fuzzyMatch t x default_threshold) (descriptionTokens e))"
  define b :: rat where "b = (if t \<in> set (descriptionTokens e) then 1 else 0)"
  define p :: rat where "p = (if includes_str (normalizedTitle e) t then 1 else 0)"
  define q :: rat where "q = (if includes_str (normalizedDescription e) t then 1 / 2 else 0)"
  have self: "fuzzyMatch t t default_threshold" by (rule fuzzyMatch_refl)
  with assms have mem: "t \<in> set (filter (\<lambda>x. fuzzyMatch t x default_threshold) (titleTokens e))"
    by simp
  have "1 \<le> ft" unfolding ft_def using assms self by (rule filter_length_pos)
  then have one: "(1::rat) \<le> of_nat ft" by simp
  have nn: "0 \<le> b" "0 \<le> p" "0 \<le> q" "(0::rat) \<le> of_nat fd"
    by (simp_all add: b_def p_def q_def)
  have "fst (scoreTerm e t) = (if t \<in> set (titleTokens e) then 3 else 0) + 2 * of_nat ft + b
          + (1 / 2) * of_nat fd + p + q"
    by (simp only: scoreTerm_fst ft_def fd_def b_def p_def q_def)
  with assms have eq: "fst (scoreTerm e t) = 3 + 2 * of_nat ft + b + (1 / 2) * of_nat fd + p + q"
    by simp
  from eq one nn have ge: "5 \<le> fst (scoreTerm e t)" by linarith
  have sn: "snd (scoreTerm e t)" using assms by (simp only: scoreTerm_snd simp_thms)
  note eq' = eq[unfolded ft_def fd_def b_def p_def q_def]
  show ?thesis
    apply (rule conjI, rule self)
    apply (rule conjI, rule mem)
    apply (rule conjI, rule sn)
    apply (rule conjI, rule eq')
    apply (rule ge)
    done
qed

theorem exact_title_match_stacks_fuzzy_witness:
  "''dress'' \<in> set (titleTokens demo_entry)
   \<and> fuzzyMatch ''dress'' ''dress'' default_threshold
   \<and> snd (scoreTerm demo_entry ''dress'')
   \<and> 5 \<le> fst (scoreTerm demo_entry ''dress'')"
proof -
  have h: "''dress'' \<in> set (titleTokens demo_entry)" by (simp add: demo_entry_def)
  from exact_title_match_stacks_fuzzy[OF h] h show ?thesis by blast
qed

subsection \<open>The loop over the search tokens\<close>

lemma scoreTerms_fold:
  "fold (\<lambda>searchToken (score', matchedTerms').
           (let (termScore, termMatched) = scoreTerm e searchToken
            in if termMatched then (score' + termScore, matchedTerms' + 1)
               else (score', matchedTerms')))
     toks (s0, m0) =
   (s0 + sum_list (map (\<lambda>t. fst (scoreTerm e t)) (filter (\<lambda>t. snd (scoreTerm e t)) toks)),
    m0 + length (filter (\<lambda>t. snd (scoreTerm e t)) toks))"
proof (induction toks arbitrary: s0 m0)
  case Nil
  then show ?case by simp
next
  case (Cons t toks)
  then show ?case by (cases "scoreTerm e t") (simp add: algebra_simps)
qed

lemma scoreTerms_eq:
  "scoreTerms e toks =
     (sum_list (map (\<lambda>t. fst (scoreTerm e t)) (filter (\<lambda>t. snd (scoreTerm e t)) toks)),
      length (filter (\<lambda>t. snd (scoreTerm e t)) toks))"
  unfolding scoreTerms_def scoreTerms_fold by simp


lemma calculateRelevanceScore_eq:
  assumes "toks \<noteq> []" and "i < length (searchIndex c)"
  shows "calculateRelevanceScore c toks i =
     Inr \<lparr>score = to_double (fst (scoreTerms (searchIndex c ! i) toks)
                   + to_double (to_double (of_nat (snd (scoreTerms (searchIndex c ! i) toks))
                                           / of_nat (length toks)) * 2)),
          matchedTerms = snd (scoreTerms (searchIndex c ! i) toks),
          totalTerms = length toks,
          coverage = to_double (of_nat (snd (scoreTerms (searchIndex c ! i) toks))
                                / of_nat (length toks))\<rparr>"
  using assms by (simp add: calculateRelevanceScore_def Let_def case_prod_beta)

subsection \<open>Tokens occur in the normalized text\<close>

lemma includes_str_sublist: "includes_str s t \<longleftrightarrow> sublist t s"
  by (induction s) (simp_all add: sublist_Cons_right)

lemma split_space_nonempty: "split_space s \<noteq> []"
  by (induction s) (auto split: list.splits)

lemma split_space_hd_prefix: "split_space s = w # ws \<Longrightarrow> prefix w s"
proof (induction s arbitrary: w ws)
  case Nil
  then show ?case by simp
next
  case (Cons c cs)
  show ?case
  proof (cases "c = CHR '' ''")
    case True
    with Cons.prems show ?thesis by simp
  next
    case False
    obtain w0 ws0 where sp: "split_space cs = w0 # ws0"
      using split_space_nonempty[of cs] by (cases "split_space cs") auto
    with Cons.IH have "prefix w0 cs" by blast
    with Cons.prems False sp show ?thesis by auto
  qed
qed

lemma split_space_sublist: "w \<in> set (split_space s) \<Longrightarrow> sublist w s"
proof (induction s arbitrary: w)
  case Nil
  then show ?case by simp
next
  case (Cons c cs)
  show ?case
  proof (cases "c = CHR '' ''")
    case True
    with Cons.prems have "w = [] \<or> w \<in> set (split_space cs)" by auto
    then show ?thesis using Cons.IH by (auto simp: sublist_Cons_right)
  next
    case False
    obtain w0 ws0 where sp: "split_space cs = w0 # ws0"
      using split_space_nonempty[of cs] by (cases "split_space cs") auto
    with Cons.prems False have "w = c # w0 \<or> w \<in> set ws0" by auto
    then show ?thesis
    proof
      assume "w = c # w0"
      moreover have "prefix w0 cs" using sp by (rule split_space_hd_prefix)
      ultimately show ?thesis by (simp add: sublist_Cons_right)
    next
      assume "w \<in> set ws0"
      with sp have "w \<in> set (split_space cs)" by simp
      then have "sublist w cs" by (rule Cons.IH)
      then show ?thesis by (simp add: sublist_Cons_right)
    qed
  qed
qed

lemma token_in_normalized: "t \<in> set (tokenize x) \<Longrightarrow> includes_str (normalizeText x) t"
proof -
  assume t: "t \<in> set (tokenize x)"
  then have "t \<in> set (split_space (normalizeText x))"
    by (auto simp: tokenize_def split: option.splits if_splits)
  then show ?thesis by (simp add: includes_str_sublist split_space_sublist)
qed

subsection \<open>A single exact title match\<close>

lemma demo_entry_nth: "searchIndex demo_catalogue ! 1 = demo_entry"
  by (simp add: demo_searchIndex demo_entry_def)

text \<open>
  Claim C1 as stated fails.  The second product of the small catalogue has the single title
  token \<open>dress\<close> and no description; the query \<open>dress\<close> has that one token, which occurs
  nowhere else.  The scorer returns 8, not 5: the exact-title bonus 3, the fuzzy bonus 2
  for the same title token, the bonus 1 for the normalized title containing the token, and
  the coverage bonus 2 (with one token, no operation rounds).
\<close>

theorem exact_match_score_counterexample:
  "tokenize (Some ''dress'') = [''dress'']
   \<and> searchIndex demo_catalogue ! 1 = demo_entry
   \<and> titleTokens demo_entry = [''dress'']
   \<and> descriptionTokens demo_entry = []
   \<and> normalizedDescription demo_entry = []
   \<and> calculateRelevanceScore demo_catalogue (tokenize (Some ''dress'')) 1
       = Inr \<lparr>score = 8, matchedTerms = 1, totalTerms = 1, coverage = 1\<rparr>
   \<and> calculateRelevanceScore demo_catalogue (tokenize (Some ''dress'')) 1
       \<noteq> Inr \<lparr>score = 5, matchedTerms = 1, totalTerms = 1, coverage = 1\<rparr>"
proof -
  have tok: "tokenize (Some ''dress'') = [''dress'']" by code_simp
  have st: "scoreTerm demo_entry ''dress'' = (6, True)"
    by (simp add: scoreTerm_def demo_entry_def fuzzyMatch_refl)
  have sts: "scoreTerms demo_entry [''dress''] = (6, 1)"
    by (simp add: scoreTerms_eq st)
  have len: "1 < length (searchIndex demo_catalogue)" by (simp add: demo_searchIndex)
  have "calculateRelevanceScore demo_catalogue [''dress''] 1
       = Inr \<lparr>score = 8, matchedTerms = 1, totalTerms = 1, coverage = 1\<rparr>"
    using calculateRelevanceScore_eq[OF _ len, of "[''dress'']"]
    unfolding demo_entry_nth sts by (simp add: to_double_small)
  with tok demo_entry_nth show ?thesis by (simp add: demo_entry_def)
qed

text \<open>
  Claim C1, amended: for a single-term query on an entry of the built index, when the query
  token is the one title token that fuzzy-matches it, no description token fuzzy-matches it
  and the normalized description does not contain it, the scorer returns score exactly 8
  (3 for the exact title match, 2 for the fuzzy match of the same title token, 1 because
  the normalized title contains every title token, and the coverage bonus 2), with
  matchedTerms 1.
\<close>

theorem single_exact_title_score:
  assumes i: "i < length (allProducts c)"
    and one: "filter (\<lambda>x. fuzzyMatch t x default_threshold)
                (titleTokens (searchIndex (buildSearchIndex c) ! i)) = [t]"
    and nd: "\<forall>d\<in>set (descriptionTokens (searchIndex (buildSearchIndex c) ! i)).
                \<not> fuzzyMatch t d default_threshold"
    and np: "\<not> includes_str (normalizedDescription (searchIndex (buildSearchIndex c) ! i)) t"
  shows "calculateRelevanceScore (buildSearchIndex c) [t] i
           = Inr \<lparr>score = 8, matchedTerms = 1, totalTerms = 1, coverage = 1\<rparr>"
proof -
  define e where "e = searchIndex (buildSearchIndex c) ! i"
  have "t \<in> set (filter (\<lambda>x. fuzzyMatch t x default_threshold) (titleTokens e))"
    using one by (simp add: e_def)
  then have mem: "t \<in> set (titleTokens e)" by simp
  have tt: "titleTokens e = tokenize (title_of (allProducts c ! i))"
    and nt: "normalizedTitle e = normalizeText (title_of (allProducts c ! i))"
    using i by (simp_all add: e_def nth_buildSearchIndex)
  from mem have inc: "includes_str (normalizedTitle e) t"
    unfolding tt nt by (rule token_in_normalized)
  from nd have fd: "filter (\<lambda>x. fuzzyMatch t x default_threshold) (descriptionTokens e) = []"
    by (simp add: e_def filter_empty_conv)
  from nd have nmem: "t \<notin> set (descriptionTokens e)"
    using fuzzyMatch_refl[of t default_threshold] by (auto simp: e_def)
  from np have np': "\<not> includes_str (normalizedDescription e) t" by (simp add: e_def)
  from one have ft: "filter (\<lambda>x. fuzzyMatch t x default_threshold) (titleTokens e) = [t]"
    by (simp add: e_def)
  have f: "fst (scoreTerm e t) = 6"
    by (simp only: scoreTerm_fst ft fd) (simp add: mem nmem inc np')
  have s: "snd (scoreTerm e t)" using mem by (simp only: scoreTerm_snd simp_thms)
  have "scoreTerms e [t] = (6, 1)" by (simp add: scoreTerms_eq f s)
  moreover have "i < length (searchIndex (buildSearchIndex c))"
    using i by (simp add: length_buildSearchIndex)
  ultimately show ?thesis
    by (simp add: calculateRelevanceScore_eq e_def[symmetric] to_double_small)
qed

theorem single_exact_title_score_witness:
  "1 < length (allProducts \<lparr>allProducts = demo_products, searchIndex = []\<rparr>)
   \<and> filter (\<lambda>x. fuzzyMatch ''dress'' x default_threshold)
        (titleTokens (searchIndex demo_catalogue ! 1)) = [''dress'']
   \<and> descriptionTokens (searchIndex demo_catalogue ! 1) = []
   \<and> \<not> includes_str (normalizedDescription (searchIndex demo_catalogue ! 1)) ''dress''
   \<and> calculateRelevanceScore demo_catalogue [''dress''] 1
       = Inr \<lparr>score = 8, matchedTerms = 1, totalTerms = 1, coverage = 1\<rparr>"
proof -
  let ?c = "\<lparr>allProducts = demo_products, searchIndex = []\<rparr>"
  have i: "1 < length (allProducts ?c)" by (simp add: demo_products_def)
  have one: "filter (\<lambda>x. fuzzyMatch ''dress'' x default_threshold)
        (titleTokens (searchIndex (buildSearchIndex ?c) ! 1)) = [''dress'']"
    unfolding demo_catalogue_def[symmetric] demo_entry_nth
    by (simp add: demo_entry_def fuzzyMatch_refl)
  have nd: "\<forall>d\<in>set (descriptionTokens (searchIndex (buildSearchIndex ?c) ! 1)).
        \<not> fuzzyMatch ''dress'' d default_threshold"
    unfolding demo_catalogue_def[symmetric] demo_entry_nth by (simp add: demo_entry_def)
  have np: "\<not> includes_str (normalizedDescription (searchIndex (buildSearchIndex ?c) ! 1)) ''dress''"
    unfolding demo_catalogue_def[symmetric] demo_entry_nth by (simp add: demo_entry_def)
  have de: "descriptionTokens (searchIndex demo_catalogue ! 1) = []"
    unfolding demo_entry_nth by (simp add: demo_entry_def)
  from single_exact_title_score[OF i one nd np] i one de np show ?thesis
    unfolding demo_catalogue_def[symmetric] by blast
qed

section \<open>The empty query\<close>

lemma passThrough_eq:
  "passThrough c =
     map (\<lambda>p. \<lparr>res_product = Some p, res_score = 0, res_matchedTerms = None, res_coverage = None\<rparr>)
       (allProducts c)"
  unfolding passThrough_def
  by (rule nth_equalityI) (simp_all add: nth_enumerate_eq lookup_def)

lemma tokenize_falsy: "tokenize None = []" "tokenize (Some []) = []"
  by (simp_all add: tokenize_def)

text \<open>
  Claim C3: for a query that is null, empty or only white space, or that tokenizes to no
  token at all, the search returns one result per product, in the order of the products,
  each with score 0: the result list has the length of the product list.
\<close>

theorem empty_query_pass_through:
  assumes "query = None \<or> query = Some [] \<or> (\<exists>q. query = Some q \<and> trim q = [])
           \<or> tokenize query = []"
  shows "performAdvancedSearch c query =
           Inr (map (\<lambda>p. \<lparr>res_product = Some p, res_score = 0,
                           res_matchedTerms = None, res_coverage = None\<rparr>)
                  (allProducts c))"
proof (cases "case query of None \<Rightarrow> True | Some q \<Rightarrow> q = [] \<or> length (trim q) = 0")
  case True
  then show ?thesis by (simp add: performAdvancedSearch_def passThrough_eq)
next
  case False
  then obtain q where q: "query = Some q" "q \<noteq> []" "trim q \<noteq> []"
    by (cases query) auto
  with assms have "tokenize query = []" by auto
  with False show ?thesis by (simp add: performAdvancedSearch_def passThrough_eq)
qed

theorem empty_query_pass_through_witness:
  "tokenize (Some ''the a x'') = []
   \<and> performAdvancedSearch demo_catalogue (Some ''the a x'') =
       Inr (map (\<lambda>p. \<lparr>res_product = Some p, res_score = 0,
                       res_matchedTerms = None, res_coverage = None\<rparr>)
              demo_products)
   \<and> trim '' '' = []
   \<and> performAdvancedSearch demo_catalogue (Some '' '') =
       Inr (map (\<lambda>p. \<lparr>res_product = Some p, res_score = 0,
                       res_matchedTerms = None, res_coverage = None\<rparr>)
              demo_products)"
proof -
  have h: "tokenize (Some ''the a x'') = []" by code_simp
  have t: "trim '' '' = []" by code_simp
  from empty_query_pass_through[of "Some ''the a x''" demo_catalogue]
    empty_query_pass_through[of "Some '' ''" demo_catalogue] h t
  show ?thesis by (simp add: demo_allProducts)
qed

section \<open>The suggestion generator\<close>

lemma fold_invariant:
  assumes "\<And>x s. P s \<Longrightarrow> P (f x s)" and "P s"
  shows "P (fold f xs s)"
  using assms(2) by (induction xs arbitrary: s) (simp_all add: assms(1))

lemma suggestStep_excludes:
  "queryToken \<notin> set suggestions \<Longrightarrow> queryToken \<notin> set (suggestStep token queryToken suggestions)"
  by (cases "token = queryToken") (auto simp: suggestStep_def set_add_def Let_def)

text \<open>
  Claim C8: for a query of a single token, the suggestions never contain that token.  The
  fuzzy branch adds a candidate only when it differs from the query token, and the
  containment branch only when it is strictly longer.
\<close>

theorem suggestions_exclude_query_token:
  assumes "tokenize query = [queryToken]"
  shows "queryToken \<notin> set (generateSearchSuggestions c query)"
proof -
  let ?all = "fold (\<lambda>product. fold (\<lambda>token. suggestStep token queryToken)
                                  (allTokens product)) (searchIndex c) []"
  have inner: "queryToken \<notin> set s \<Longrightarrow>
      queryToken \<notin> set (fold (\<lambda>token. suggestStep token queryToken) toks s)" for toks s
    by (rule fold_invariant[where P = "\<lambda>s. queryToken \<notin> set s"])
       (simp_all add: suggestStep_excludes)
  have "queryToken \<notin> set ?all"
    by (rule fold_invariant[where P = "\<lambda>s. queryToken \<notin> set s"]) (simp_all add: inner)
  then have "queryToken \<notin> set (take 5 ?all)" by (auto dest: in_set_takeD)
  then show ?thesis using assms by (simp add: generateSearchSuggestions_def)
qed

theorem suggestions_exclude_query_token_witness:
  "tokenize (Some ''drss'') = [''drss'']
   \<and> ''drss'' \<notin> set (generateSearchSuggestions demo_catalogue (Some ''drss''))"
proof -
  have h: "tokenize (Some ''drss'') = [''drss'']" by code_simp
  from suggestions_exclude_query_token[OF h] h show ?thesis by blast
qed

section \<open>The sort of the results\<close>

lemma compareResults_complete:
  assumes "complete_result a" and "complete_result b"
  shows "\<exists>v. compareResults a b = Inr v \<and> (v \<le> 0 \<longleftrightarrow> ranks_before a b)
             \<and> (sort_key a = sort_key b \<longrightarrow> v = 0)"
proof -
  from assms obtain pa ca pb cb where
    a: "res_product a = Some pa" "res_coverage a = Some ca"
    and b: "res_product b = Some pb" "res_coverage b = Some cb"
    by (auto simp: complete_result_def)
  show ?thesis
    using a b
    by (auto simp: compareResults_def ranks_before_def sort_key_def res_confidence_def or_zero_def)
qed

lemma ranks_before_trans: "ranks_before a b \<Longrightarrow> ranks_before b c \<Longrightarrow> ranks_before a c"
  unfolding ranks_before_def by linarith

lemma ranks_before_total: "\<not> ranks_before a b \<Longrightarrow> ranks_before b a"
  unfolding ranks_before_def by linarith

lemma ranks_before_key: "\<not> ranks_before a b \<Longrightarrow> sort_key a \<noteq> sort_key b"
  by (auto simp: ranks_before_def sort_key_def)

lemma insort_cmp_complete:
  assumes "complete_result x" and "\<forall>y\<in>set ys. complete_result y"
  shows "\<exists>zs. insort_cmp compareResults x ys = Inr zs
            \<and> mset zs = add_mset x (mset ys)
            \<and> (sorted_wrt ranks_before ys \<longrightarrow> sorted_wrt ranks_before zs)
            \<and> (\<forall>k. filter (\<lambda>r. sort_key r = k) zs = filter (\<lambda>r. sort_key r = k) (x # ys))"
  using assms(2)
proof (induction ys)
  case Nil
  then show ?case by simp
next
  case (Cons y ys)
  from Cons.prems have cy: "complete_result y" and cys: "\<forall>y\<in>set ys. complete_result y"
    by simp_all
  from compareResults_complete[OF assms(1) cy] obtain v where
    v: "compareResults x y = Inr v" "v \<le> 0 \<longleftrightarrow> ranks_before x y"
    by blast
  show ?case
  proof (cases "v \<le> 0")
    case True
    with v have xy: "ranks_before x y" by simp
    have "sorted_wrt ranks_before (y # ys) \<longrightarrow> sorted_wrt ranks_before (x # y # ys)"
    proof
      assume s: "sorted_wrt ranks_before (y # ys)"
      then have "\<forall>z\<in>set ys. ranks_before y z" by simp
      then have "\<forall>z\<in>set ys. ranks_before x z" using xy ranks_before_trans by blast
      with xy s show "sorted_wrt ranks_before (x # y # ys)" by simp
    qed
    moreover have "insort_cmp compareResults x (y # ys) = Inr (x # y # ys)"
      using v True by simp
    ultimately show ?thesis by simp
  next
    case False
    with v have nxy: "\<not> ranks_before x y" by simp
    then have yx: "ranks_before y x" by (rule ranks_before_total)
    from nxy have key: "sort_key x \<noteq> sort_key y" by (rule ranks_before_key)
    from Cons.IH[OF cys] obtain zs where
      zs: "insort_cmp compareResults x ys = Inr zs"
      "mset zs = add_mset x (mset ys)"
      "sorted_wrt ranks_before ys \<longrightarrow> sorted_wrt ranks_before zs"
      "\<forall>k. filter (\<lambda>r. sort_key r = k) zs = filter (\<lambda>r. sort_key r = k) (x # ys)"
      by blast
    have res: "insort_cmp compareResults x (y # ys) = Inr (y # zs)"
      using v False zs(1) by simp
    have m: "mset (y # zs) = add_mset x (mset (y # ys))" using zs(2) by simp
    have "set zs = insert x (set ys)" using zs(2) by (metis set_mset_mset set_mset_add_mset_insert)
    then have s: "sorted_wrt ranks_before (y # ys) \<longrightarrow> sorted_wrt ranks_before (y # zs)"
      using zs(3) yx by simp
    have f: "\<forall>k. filter (\<lambda>r. sort_key r = k) (y # zs)
                 = filter (\<lambda>r. sort_key r = k) (x # y # ys)"
    proof
      fix k
      from zs(4) have "filter (\<lambda>r. sort_key r = k) zs = filter (\<lambda>r. sort_key r = k) (x # ys)"
        by (rule spec)
      with key show "filter (\<lambda>r. sort_key r = k) (y # zs)
                 = filter (\<lambda>r. sort_key r = k) (x # y # ys)"
        by (cases "sort_key y = k") simp_all
    qed
    from res m s f show ?thesis by blast
  qed
qed

lemma sort_cmp_complete:
  assumes "\<forall>x\<in>set xs. complete_result x"
  shows "\<exists>ys. sort_cmp compareResults xs = Inr ys
            \<and> mset ys = mset xs
            \<and> sorted_wrt ranks_before ys
            \<and> (\<forall>k. filter (\<lambda>r. sort_key r = k) ys = filter (\<lambda>r. sort_key r = k) xs)"
  using assms
proof (induction xs)
  case Nil
  then show ?case by simp
next
  case (Cons x xs)
  from Cons.prems have "\<forall>x\<in>set xs. complete_result x" by simp
  from Cons.IH[OF this] obtain ys where
    ys: "sort_cmp compareResults xs = Inr ys" "mset ys = mset xs"
    "sorted_wrt ranks_before ys"
    "\<forall>k. filter (\<lambda>r. sort_key r = k) ys = filter (\<lambda>r. sort_key r = k) xs"
    by blast
  have "set ys = set xs" using ys(2) by (rule mset_eq_setD)
  with Cons.prems have "complete_result x" "\<forall>y\<in>set ys. complete_result y"
    by simp_all
  from insort_cmp_complete[OF this] obtain zs where
    zs: "insort_cmp compareResults x ys = Inr zs"
    "mset zs = add_mset x (mset ys)"
    "sorted_wrt ranks_before ys \<longrightarrow> sorted_wrt ranks_before zs"
    "\<forall>k. filter (\<lambda>r. sort_key r = k) zs = filter (\<lambda>r. sort_key r = k) (x # ys)"
    by blast
  have "sort_cmp compareResults (x # xs) = Inr zs" using ys(1) zs(1) by simp
  moreover have "mset zs = mset (x # xs)" using zs(2) ys(2) by simp
  moreover have "sorted_wrt ranks_before zs" using zs(3) ys(3) by simp
  moreover have "\<forall>k. filter (\<lambda>r. sort_key r = k) zs = filter (\<lambda>r. sort_key r = k) (x # xs)"
    using zs(4) ys(4) by simp
  ultimately show ?case by blast
qed

section \<open>The search orchestrator\<close>

subsection \<open>A query of white space has no token\<close>

lemma trim_empty_spaces: "trim s = [] \<Longrightarrow> \<forall>c\<in>set s. is_space c"
proof -
  assume "trim s = []"
  then have "dropWhile is_space (rev (dropWhile is_space s)) = []" by (simp add: trim_def)
  then have all: "\<forall>c\<in>set (dropWhile is_space s). is_space c"
    by (simp add: dropWhile_eq_Nil_conv)
  have "dropWhile is_space s = []"
  proof (rule ccontr)
    assume ne: "dropWhile is_space s \<noteq> []"
    then have "\<not> is_space (hd (dropWhile is_space s))" by (rule hd_dropWhile)
    moreover from ne have "hd (dropWhile is_space s) \<in> set (dropWhile is_space s)" by simp
    ultimately show False using all by blast
  qed
  then show ?thesis by (simp add: dropWhile_eq_Nil_conv)
qed

lemma space_clean: "is_space c \<Longrightarrow> clean_char c = c"
  by (auto simp: is_space_def clean_char_def lower_char_def is_word_def code_unit_def Let_def)

lemma collapse_all_spaces:
  "\<forall>c\<in>set s. is_space c \<Longrightarrow> collapse_spaces s = (if s = [] then [] else '' '')"
proof (cases s)
  case Nil
  then show ?thesis by simp
next
  case (Cons c cs)
  assume a: "\<forall>c\<in>set s. is_space c"
  with Cons have d: "dropWhile is_space cs = []" by (simp add: dropWhile_eq_Nil_conv)
  from a Cons show ?thesis by (simp add: d)
qed

lemma tokenize_spaces:
  assumes "trim q = []"
  shows "tokenize (Some q) = []"
proof (cases "q = []")
  case True
  then show ?thesis by (simp add: tokenize_def)
next
  case False
  have sp: "\<forall>c\<in>set q. is_space c" using assms by (rule trim_empty_spaces)
  then have "map clean_char q = q" by (simp add: map_idI space_clean)
  moreover have "collapse_spaces q = '' ''" using sp False by (simp add: collapse_all_spaces)
  moreover have "trim '' '' = []" by (simp add: trim_def is_space_def code_unit_def)
  ultimately have "normalizeText (Some q) = []" using False
    by (simp add: normalizeText_def pre_map)
  then show ?thesis using False by (simp add: tokenize_def)
qed

subsection \<open>The results before the sort\<close>

lemma collectResult_step:
  assumes "toks \<noteq> []" and "i < length (searchIndex c)" and "e = searchIndex c ! i"
  shows "collectResult c toks (i, e) (Inr acc) = Inr (acc @ resultAt c toks i)"
proof -
  from calculateRelevanceScore_eq[OF assms(1,2)] obtain rel where
    "calculateRelevanceScore c toks i = Inr rel" by blast
  then show ?thesis using assms(3) by (simp add: collectResult_def resultAt_def)
qed

lemma fold_collectResult:
  assumes "toks \<noteq> []"
    and "\<forall>p\<in>set es. fst p < length (searchIndex c) \<and> snd p = searchIndex c ! fst p"
  shows "fold (collectResult c toks) es (Inr acc)
           = Inr (acc @ concat (map (resultAt c toks) (map fst es)))"
  using assms(2)
proof (induction es arbitrary: acc)
  case Nil
  then show ?case by simp
next
  case (Cons p es)
  obtain i e where p: "p = (i, e)" by (cases p)
  with Cons.prems have "i < length (searchIndex c)" "e = searchIndex c ! i" by simp_all
  then have "collectResult c toks p (Inr acc) = Inr (acc @ resultAt c toks i)"
    unfolding p by (rule collectResult_step[OF assms(1)])
  moreover from Cons.prems
  have "\<forall>p\<in>set es. fst p < length (searchIndex c) \<and> snd p = searchIndex c ! fst p" by simp
  ultimately show ?case using Cons.IH p by simp
qed

lemma collectResults_eq:
  assumes "toks \<noteq> []"
  shows "collectResults c toks = Inr (retained c toks)"
proof -
  have "\<forall>p\<in>set (enumerate 0 (searchIndex c)).
          fst p < length (searchIndex c) \<and> snd p = searchIndex c ! fst p"
    by (auto simp: in_set_enumerate_eq)
  from fold_collectResult[OF assms this, of "[]"] show ?thesis
    by (simp add: collectResults_def retained_def)
qed

text \<open>What a retained result looks like.\<close>

lemma retained_member:
  assumes "r \<in> set (retained c toks)" and "toks \<noteq> []"
  shows "\<exists>i<length (searchIndex c).
           0 < snd (scoreTerms (searchIndex c ! i) toks)
           \<and> r = \<lparr>res_product = lookup (allProducts c) (productIndex (searchIndex c ! i)),
                  res_score = to_double (fst (scoreTerms (searchIndex c ! i) toks)
                    + to_double (to_double (of_nat (snd (scoreTerms (searchIndex c ! i) toks))
                                            / of_nat (length toks)) * 2)),
                  res_matchedTerms = Some (snd (scoreTerms (searchIndex c ! i) toks)),
                  res_coverage = Some (to_double (of_nat (snd (scoreTerms (searchIndex c ! i) toks))
                                       / of_nat (length toks)))\<rparr>"
proof -
  from assms(1) obtain i where i: "i < length (searchIndex c)" and r: "r \<in> set (resultAt c toks i)"
    by (auto simp: retained_def)
  from r show ?thesis
    unfolding resultAt_def calculateRelevanceScore_eq[OF assms(2) i]
    using i by (auto split: if_splits)
qed

lemma retained_built_complete:
  assumes "r \<in> set (retained (buildSearchIndex c) toks)" and "toks \<noteq> []"
  shows "complete_result r"
proof -
  from retained_member[OF assms] obtain i where
    i: "i < length (searchIndex (buildSearchIndex c))"
    and r: "res_product r = lookup (allProducts (buildSearchIndex c))
                              (productIndex (searchIndex (buildSearchIndex c) ! i))"
       "res_coverage r \<noteq> None"
    by auto
  from i have i': "i < length (allProducts c)" by (simp add: length_buildSearchIndex)
  then have "res_product r = Some (allProducts c ! i)"
    using r(1) by (simp add: nth_buildSearchIndex allProducts_buildSearchIndex lookup_def)
  with r(2) show ?thesis by (simp add: complete_result_def)
qed

text \<open>The search on a built index: it returns, and its result is the stable sort of the
  retained results.\<close>

lemma search_built:
  assumes "tokenize query \<noteq> []"
  shows "\<exists>rs. performAdvancedSearch (buildSearchIndex c) query = Inr rs
            \<and> mset rs = mset (retained (buildSearchIndex c) (tokenize query))
            \<and> sorted_wrt ranks_before rs
            \<and> (\<forall>k. filter (\<lambda>r. sort_key r = k) rs
                     = filter (\<lambda>r. sort_key r = k) (retained (buildSearchIndex c) (tokenize query)))"
proof -
  let ?c = "buildSearchIndex c"
  let ?toks = "tokenize query"
  from assms obtain q where q: "query = Some q" "q \<noteq> []"
    by (cases query) (auto simp: tokenize_def split: if_splits)
  with assms have "trim q \<noteq> []" using tokenize_spaces by blast
  with q assms have run: "performAdvancedSearch ?c query
       = (case collectResults ?c ?toks of Inl e \<Rightarrow> Inl e
          | Inr results \<Rightarrow> sort_cmp compareResults results)"
    by (simp add: performAdvancedSearch_def Let_def)
  have "\<forall>r\<in>set (retained ?c ?toks). complete_result r"
    using retained_built_complete assms by blast
  from sort_cmp_complete[OF this] obtain rs where
    rs: "sort_cmp compareResults (retained ?c ?toks) = Inr rs"
    "mset rs = mset (retained ?c ?toks)"
    "sorted_wrt ranks_before rs"
    "\<forall>k. filter (\<lambda>r. sort_key r = k) rs = filter (\<lambda>r. sort_key r = k) (retained ?c ?toks)"
    by blast
  have "performAdvancedSearch ?c query = Inr rs"
    unfolding run collectResults_eq[OF assms] using rs(1) by simp
  with rs(2,3,4) show ?thesis by blast
qed

subsection \<open>Ranking\<close>

text \<open>
  Claim C4: for a query with at least one token, the search returns the retained results
  sorted by score descending, then by coverage descending, then by the confidence of the
  product descending (\<^const>\<open>ranks_before\<close> holds between every earlier and every later
  result), and the sort is stable: the results with one and the same triple of keys come
  in the order in which they were retained, which is the index order.
\<close>

theorem search_sorted_stable:
  assumes "tokenize query \<noteq> []"
  shows "\<exists>rs. performAdvancedSearch (buildSearchIndex c) query = Inr rs
            \<and> sorted_wrt ranks_before rs
            \<and> (\<forall>k. filter (\<lambda>r. sort_key r = k) rs
                     = filter (\<lambda>r. sort_key r = k)
                         (retained (buildSearchIndex c) (tokenize query)))"
  using search_built[OF assms, of c] by blast

subsection \<open>Retention\<close>

lemma concat_map_if: "concat (map (\<lambda>i. if P i then [g i] else []) xs) = map g (filter P xs)"
  by (induction xs) simp_all

lemma resultAt_product:
  assumes "toks \<noteq> []" and "i < length (allProducts c)"
  shows "map res_product (resultAt (buildSearchIndex c) toks i)
           = (if matches (buildSearchIndex c) toks i then [Some (allProducts c ! i)] else [])"
proof -
  from assms(2) have i: "i < length (searchIndex (buildSearchIndex c))"
    by (simp add: length_buildSearchIndex)
  have "lookup (allProducts (buildSearchIndex c))
          (productIndex (searchIndex (buildSearchIndex c) ! i)) = Some (allProducts c ! i)"
    using assms(2) by (simp add: nth_buildSearchIndex allProducts_buildSearchIndex lookup_def)
  then show ?thesis
    unfolding resultAt_def matches_def calculateRelevanceScore_eq[OF assms(1) i] by simp
qed

lemma retained_products:
  assumes "toks \<noteq> []"
  shows "map res_product (retained (buildSearchIndex c) toks)
           = map (\<lambda>i. Some (allProducts c ! i))
               (filter (matches (buildSearchIndex c) toks) [0..<length (allProducts c)])"
proof -
  have "map res_product (retained (buildSearchIndex c) toks)
          = concat (map (\<lambda>i. map res_product (resultAt (buildSearchIndex c) toks i))
                      [0..<length (allProducts c)])"
    by (simp add: retained_def map_concat length_buildSearchIndex comp_def)
  also have "\<dots> = concat (map (\<lambda>i. if matches (buildSearchIndex c) toks i
                                     then [Some (allProducts c ! i)] else [])
                            [0..<length (allProducts c)])"
    by (rule arg_cong[where f = concat], rule map_cong) (simp_all add: resultAt_product[OF assms])
  finally show ?thesis by (simp only: concat_map_if)
qed

lemma no_match_scoreTerms:
  assumes "\<forall>t\<in>set toks. \<not> snd (scoreTerm e t)"
  shows "snd (scoreTerms e toks) = 0"
  using assms by (simp add: scoreTerms_eq filter_empty_conv)

text \<open>
  Claim C5: for a query with at least one token, the search retains exactly the products
  for which the scorer reports a matched term, and each result carries a positive
  matchedTerms; when no title or description token of any entry fuzzy-matches a query
  token (an equal token does) and no normalized title or description contains one, the
  search returns the empty list.
\<close>

theorem search_retains_matching:
  assumes "tokenize query \<noteq> []"
  shows "\<exists>rs. performAdvancedSearch (buildSearchIndex c) query = Inr rs
            \<and> mset (map res_product rs)
                = mset (map (\<lambda>i. Some (allProducts c ! i))
                         (filter (matches (buildSearchIndex c) (tokenize query))
                            [0..<length (allProducts c)]))
            \<and> (\<forall>r\<in>set rs. \<exists>m. res_matchedTerms r = Some m \<and> 0 < m)
            \<and> ((\<forall>e\<in>set (searchIndex (buildSearchIndex c)). \<forall>t\<in>set (tokenize query).
                   (\<forall>x\<in>set (titleTokens e). \<not> fuzzyMatch t x default_threshold)
                   \<and> (\<forall>x\<in>set (descriptionTokens e). \<not> fuzzyMatch t x default_threshold)
                   \<and> \<not> includes_str (normalizedTitle e) t
                   \<and> \<not> includes_str (normalizedDescription e) t)
                 \<longrightarrow> rs = [])"
proof -
  let ?c = "buildSearchIndex c"
  let ?toks = "tokenize query"
  from search_built[OF assms, of c] obtain rs where
    rs: "performAdvancedSearch ?c query = Inr rs" "mset rs = mset (retained ?c ?toks)"
    by blast
  from rs(2) have "mset (map res_product rs) = mset (map res_product (retained ?c ?toks))"
    by (metis mset_map)
  then have prod: "mset (map res_product rs)
                = mset (map (\<lambda>i. Some (allProducts c ! i))
                         (filter (matches ?c ?toks) [0..<length (allProducts c)]))"
    by (simp only: retained_products[OF assms])
  have set_eq: "set rs = set (retained ?c ?toks)" using rs(2) by (rule mset_eq_setD)
  have pos: "\<forall>r\<in>set rs. \<exists>m. res_matchedTerms r = Some m \<and> 0 < m"
  proof
    fix r assume "r \<in> set rs"
    then have "r \<in> set (retained ?c ?toks)" using set_eq by simp
    from retained_member[OF this assms] show "\<exists>m. res_matchedTerms r = Some m \<and> 0 < m"
      by auto
  qed
  have none: "(\<forall>e\<in>set (searchIndex ?c). \<forall>t\<in>set ?toks.
                   (\<forall>x\<in>set (titleTokens e). \<not> fuzzyMatch t x default_threshold)
                   \<and> (\<forall>x\<in>set (descriptionTokens e). \<not> fuzzyMatch t x default_threshold)
                   \<and> \<not> includes_str (normalizedTitle e) t
                   \<and> \<not> includes_str (normalizedDescription e) t)
                 \<longrightarrow> rs = []"
  proof
    assume nm: "\<forall>e\<in>set (searchIndex ?c). \<forall>t\<in>set ?toks.
                   (\<forall>x\<in>set (titleTokens e). \<not> fuzzyMatch t x default_threshold)
                   \<and> (\<forall>x\<in>set (descriptionTokens e). \<not> fuzzyMatch t x default_threshold)
                   \<and> \<not> includes_str (normalizedTitle e) t
                   \<and> \<not> includes_str (normalizedDescription e) t"
    have "retained ?c ?toks = []"
    proof (rule ccontr)
      assume "retained ?c ?toks \<noteq> []"
      then obtain r where "r \<in> set (retained ?c ?toks)" by (cases "retained ?c ?toks") auto
      from retained_member[OF this assms] obtain i where
        i: "i < length (searchIndex ?c)" "0 < snd (scoreTerms (searchIndex ?c ! i) ?toks)"
        by blast
      let ?e = "searchIndex ?c ! i"
      from i(1) have e: "?e \<in> set (searchIndex ?c)" by simp
      have "\<forall>t\<in>set ?toks. \<not> snd (scoreTerm ?e t)"
      proof
        fix t assume t: "t \<in> set ?toks"
        from nm e t have f:
          "\<forall>x\<in>set (titleTokens ?e). \<not> fuzzyMatch t x default_threshold"
          "\<forall>x\<in>set (descriptionTokens ?e). \<not> fuzzyMatch t x default_threshold"
          "\<not> includes_str (normalizedTitle ?e) t"
          "\<not> includes_str (normalizedDescription ?e) t"
          by blast+
        from f(1) have "t \<notin> set (titleTokens ?e)"
          using fuzzyMatch_refl[of t default_threshold] by blast
        moreover from f(2) have "t \<notin> set (descriptionTokens ?e)"
          using fuzzyMatch_refl[of t default_threshold] by blast
        ultimately show "\<not> snd (scoreTerm ?e t)"
          using f unfolding scoreTerm_snd by blast
      qed
      then have "snd (scoreTerms ?e ?toks) = 0" by (rule no_match_scoreTerms)
      with i(2) show False by simp
    qed
    with rs(2) show "rs = []" by simp
  qed
  from rs(1) prod pos none show ?thesis by blast
qed

subsection \<open>Scores of the results\<close>


subsection \<open>The search on the small catalogues\<close>

lemma demo_tokens:
  "tokenize (Some ''zz'') = [''zz'']"
  "tokenize (Some ''aa bb cc dd ee ff'') = [''aa'', ''bb'', ''cc'', ''dd'', ''ee'', ''ff'']"
  "tokenize (Some ''zz gg hh'') = [''zz'', ''gg'', ''hh'']"
  by code_simp+

lemma rounding_search_six:
  "performAdvancedSearch rounding_catalogue (Some ''aa bb cc dd ee ff'') =
     Inr [\<lparr>res_product = Some (rounding_products ! 1),
           res_score = 7505999378950827 / 2251799813685248,
           res_matchedTerms = Some 1,
           res_coverage = Some (6004799503160661 / 36028797018963968)\<rparr>,
          \<lparr>res_product = Some (rounding_products ! 0),
           res_score = 3752999689475413 / 1125899906842624,
           res_matchedTerms = Some 4,
           res_coverage = Some (6004799503160661 / 9007199254740992)\<rparr>]"
  by code_simp


text \<open>
  On the query \<open>aa bb cc dd ee ff\<close> the second product comes out first.  Its score is the
  double above 10 / 3, that of the first product the double below: the sort moves it before
  the product that precedes it in the index, and the coverage, which is higher for the
  first product, is not consulted.
\<close>

theorem search_sorted_stable_witness:
  "tokenize (Some ''aa bb cc dd ee ff'') \<noteq> []
   \<and> performAdvancedSearch rounding_catalogue (Some ''aa bb cc dd ee ff'') =
       Inr [\<lparr>res_product = Some (rounding_products ! 1),
             res_score = 7505999378950827 / 2251799813685248,
             res_matchedTerms = Some 1,
             res_coverage = Some (6004799503160661 / 36028797018963968)\<rparr>,
            \<lparr>res_product = Some (rounding_products ! 0),
             res_score = 3752999689475413 / 1125899906842624,
             res_matchedTerms = Some 4,
             res_coverage = Some (6004799503160661 / 9007199254740992)\<rparr>]
   \<and> sorted_wrt ranks_before
        [\<lparr>res_product = Some (rounding_products ! 1),
             res_score = 7505999378950827 / 2251799813685248,
             res_matchedTerms = Some 1,
             res_coverage = Some (6004799503160661 / 36028797018963968)\<rparr>,
         \<lparr>res_product = Some (rounding_products ! 0),
             res_score = 3752999689475413 / 1125899906842624,
             res_matchedTerms = Some 4,
             res_coverage = Some (6004799503160661 / 9007199254740992)\<rparr>]
   \<and> (3752999689475413 / 1125899906842624 :: rat) < 7505999378950827 / 2251799813685248"
proof -
  have h: "tokenize (Some ''aa bb cc dd ee ff'') \<noteq> []" by (simp add: demo_tokens)
  from search_sorted_stable[OF h, of "\<lparr>allProducts = rounding_products, searchIndex = []\<rparr>"]
  obtain rs where "performAdvancedSearch rounding_catalogue (Some ''aa bb cc dd ee ff'') = Inr rs"
    and "sorted_wrt ranks_before rs"
    unfolding rounding_catalogue_def[symmetric] by blast
  with h rounding_search_six show ?thesis by simp
qed

theorem search_retains_matching_witness:
  "tokenize (Some ''zz'') \<noteq> []
   \<and> performAdvancedSearch demo_catalogue (Some ''zz'') = Inr []"
proof -
  have h: "tokenize (Some ''zz'') \<noteq> []" by (simp add: demo_tokens)
  have nm: "\<forall>e\<in>set (searchIndex demo_catalogue). \<forall>t\<in>set (tokenize (Some ''zz'')).
              (\<forall>x\<in>set (titleTokens e). \<not> fuzzyMatch t x default_threshold)
              \<and> (\<forall>x\<in>set (descriptionTokens e). \<not> fuzzyMatch t x default_threshold)
              \<and> \<not> includes_str (normalizedTitle e) t
              \<and> \<not> includes_str (normalizedDescription e) t"
    by (simp add: demo_tokens demo_searchIndex fuzzyMatch_def)
  from search_retains_matching[OF h, of "\<lparr>allProducts = demo_products, searchIndex = []\<rparr>"]
  obtain rs where "performAdvancedSearch demo_catalogue (Some ''zz'') = Inr rs"
    and "(\<forall>e\<in>set (searchIndex demo_catalogue). \<forall>t\<in>set (tokenize (Some ''zz'')).
              (\<forall>x\<in>set (titleTokens e). \<not> fuzzyMatch t x default_threshold)
              \<and> (\<forall>x\<in>set (descriptionTokens e). \<not> fuzzyMatch t x default_threshold)
              \<and> \<not> includes_str (normalizedTitle e) t
              \<and> \<not> includes_str (normalizedDescription e) t) \<longrightarrow> rs = []"
    unfolding demo_catalogue_def[symmetric] by blast
  with nm h show ?thesis by blast
qed



end
